theory Spec2Isabelle
  imports Complex_Main "HOL-Library.Word" "HOL-Library.Multiset"
begin

section \<open>Orders and the memory they live in\<close>

text \<open>
  The engine of \<^verbatim>\<open>main.go\<close> keeps pointers to orders (\<^verbatim>\<open>*Order\<close>) in two slices and
  mutates the orders through these pointers. The model therefore has an explicit store:
  an address is a natural number, the store maps every address to the \<^verbatim>\<open>Order\<close> struct
  found there, and a book is the list of addresses held by the slice.

  \<^verbatim>\<open>ID\<close> and \<^verbatim>\<open>Amount\<close> are Go \<^verbatim>\<open>int\<close>s, taken here at 64 bits (two's complement,
  subtraction wraps, comparisons are signed). \<^verbatim>\<open>Price\<close> is a \<^verbatim>\<open>float64\<close> that is only ever
  compared, never computed with; a decoded JSON number is finite, and finite floats compare
  like the real numbers they denote, so \<^verbatim>\<open>Price\<close> is a real. \<^verbatim>\<open>Index\<close> holds a slice
  position or the sentinel \<open>-1\<close>.
\<close>

type_synonym addr = nat

type_synonym OrderType = string

definition Buy :: OrderType where
  "Buy = ''BUY''"

definition Sell :: OrderType where
  "Sell = ''SELL''"

record Order =
  ID :: "64 word"
  Type :: OrderType
  Price :: real
  Amount :: "64 word"
  Index :: int

type_synonym store = "addr \<Rightarrow> Order"

text \<open>A slice of order pointers together with the memory the pointers refer to.\<close>

type_synonym heap = "store \<times> addr list"

datatype error = IndexOutOfRange

section \<open>The two implementations of \<^verbatim>\<open>heap.Interface\<close>\<close>

text \<open>
  \<^verbatim>\<open>BuyHeap\<close> and \<^verbatim>\<open>SellHeap\<close> have the same \<^verbatim>\<open>Len\<close>, \<^verbatim>\<open>Swap\<close>, \<^verbatim>\<open>Push\<close> and \<^verbatim>\<open>Pop\<close>,
  line for line; they differ in \<^verbatim>\<open>Less\<close> only. The receiver's type is the first argument
  of \<open>Less\<close>.
\<close>

datatype iface = BuyHeap | SellHeap

definition Len :: "addr list \<Rightarrow> nat" where
  "Len h = length h"

fun Less :: "iface \<Rightarrow> heap \<Rightarrow> nat \<Rightarrow> nat \<Rightarrow> bool" where
  "Less BuyHeap (s, h) i j = (Price (s (h ! i)) > Price (s (h ! j)))"
| "Less SellHeap (s, h) i j = (Price (s (h ! i)) < Price (s (h ! j)))"

text \<open>
  \<^verbatim>\<open>h[i], h[j] = h[j], h[i]; h[i].Index = i; h[j].Index = j\<close>. The two field writes go
  through the pointers now at positions \<open>i\<close> and \<open>j\<close>, one after the other.
\<close>

definition Swap :: "heap \<Rightarrow> nat \<Rightarrow> nat \<Rightarrow> heap" where
  "Swap sh i j =
     (case sh of (s, h) \<Rightarrow>
        let h' = h[i := h ! j, j := h ! i];
            s1 = s(h' ! i := (s (h' ! i))\<lparr>Index := int i\<rparr>);
            s2 = s1(h' ! j := (s1 (h' ! j))\<lparr>Index := int j\<rparr>)
        in (s2, h'))"

text \<open>\<^verbatim>\<open>order.Index = len(*h); *h = append(*h, order)\<close>\<close>

definition Push :: "heap \<Rightarrow> addr \<Rightarrow> heap" where
  "Push sh order =
     (case sh of (s, h) \<Rightarrow>
        (s(order := (s order)\<lparr>Index := int (length h)\<rparr>), h @ [order]))"

text \<open>
  \<^verbatim>\<open>old := *h; n := len(old); order := old[n-1]; order.Index = -1; *h = old[0 : n-1]\<close>.
  On an empty slice \<^verbatim>\<open>old[n-1]\<close> is an index out of range.
\<close>

definition Pop :: "heap \<Rightarrow> error + (addr \<times> heap)" where
  "Pop sh =
     (case sh of (s, old) \<Rightarrow>
        let n = length old in
        if n = 0 then Inl IndexOutOfRange
        else let order = old ! (n - 1)
             in Inr (order, (s(order := (s order)\<lparr>Index := - 1\<rparr>), take (n - 1) old)))"

section \<open>The standard library's \<^verbatim>\<open>container/heap\<close>\<close>

text \<open>
  \<^verbatim>\<open>main.go\<close> imports \<^verbatim>\<open>container/heap\<close> and calls \<^verbatim>\<open>heap.Push\<close> and \<^verbatim>\<open>heap.Pop\<close>. These are
  the library's \<^verbatim>\<open>up\<close> and \<^verbatim>\<open>down\<close> loops over the interface above:
  \<^verbatim>\<open>
  func up(h Interface, j int) {
      for {
          i := (j - 1) / 2 // parent
          if i == j || !h.Less(j, i) { break }
          h.Swap(i, j)
          j = i
      }
  }
  func down(h Interface, i0, n int) bool {
      i := i0
      for {
          j1 := 2*i + 1
          if j1 >= n || j1 < 0 { break }
          j := j1
          if j2 := j1 + 1; j2 < n && h.Less(j2, j1) { j = j2 }
          if !h.Less(j, i) { break }
          h.Swap(i, j)
          i = j
      }
      return i > i0
  }
  func Push(h Interface, x any) { h.Push(x); up(h, h.Len()-1) }
  func Pop(h Interface) any { n := h.Len() - 1; h.Swap(0, n); down(h, 0, n); return h.Pop() }
  \<close>
  Positions are natural numbers: Go's \<^verbatim>\<open>(0 - 1) / 2\<close> truncates to \<open>0\<close>, as the natural
  number expression does, and \<^verbatim>\<open>2*i + 1\<close> cannot overflow for a slice that fits in memory.
  The boolean that \<^verbatim>\<open>down\<close> returns is used by neither \<^verbatim>\<open>Push\<close> nor \<^verbatim>\<open>Pop\<close> and is left out.
\<close>

function up :: "iface \<Rightarrow> heap \<Rightarrow> nat \<Rightarrow> heap" where
  "up k sh j =
     (let i = (j - 1) div 2 in
      if i = j \<or> \<not> Less k sh j i then sh
      else up k (Swap sh i j) i)"
  by pat_completeness auto
termination
  by (relation "measure (\<lambda>(k, sh, j). j)") auto

function down :: "iface \<Rightarrow> heap \<Rightarrow> nat \<Rightarrow> nat \<Rightarrow> heap" where
  "down k sh i n =
     (let j1 = 2 * i + 1 in
      if j1 \<ge> n then sh
      else let j = (if j1 + 1 < n \<and> Less k sh (j1 + 1) j1 then j1 + 1 else j1) in
           if \<not> Less k sh j i then sh
           else down k (Swap sh i j) j n)"
  by pat_completeness auto
termination
  by (relation "measure (\<lambda>(k, sh, i, n). n - i)") (auto split: if_splits)

definition heap_Push :: "iface \<Rightarrow> heap \<Rightarrow> addr \<Rightarrow> heap" where
  "heap_Push k sh x = (let sh' = Push sh x in up k sh' (Len (snd sh') - 1))"

text \<open>On an empty slice \<^verbatim>\<open>n\<close> is \<open>-1\<close> and \<^verbatim>\<open>h.Swap(0, n)\<close> is an index out of range.\<close>

definition heap_Pop :: "iface \<Rightarrow> heap \<Rightarrow> error + (addr \<times> heap)" where
  "heap_Pop k sh =
     (if Len (snd sh) = 0 then Inl IndexOutOfRange
      else let n = Len (snd sh) - 1 in Pop (down k (Swap sh 0 n) 0 n))"

section \<open>The matching engine\<close>

text \<open>
  The engine's two books and its order channel, together with the memory that the order
  pointers refer to and the first address that \<^verbatim>\<open>new(Order)\<close> has not handed out yet. The
  channel is unbuffered: its list holds the pointers whose senders wait for the worker, in
  the order of their arrival. The two mutexes make every \<^verbatim>\<open>heap.Push\<close> and \<^verbatim>\<open>heap.Pop\<close> of
  the engine atomic; the operations below are the sequential runs of the goroutines.
\<close>

record MatchingEngine =
  memory :: store
  brk :: addr
  BuyOrders :: "addr list"
  SellOrders :: "addr list"
  orderChannel :: "addr list"

definition zero_Order :: Order where
  "zero_Order = \<lparr>ID = 0, Type = [], Price = 0, Amount = 0, Index = 0\<rparr>"

definition NewMatchingEngine :: MatchingEngine where
  "NewMatchingEngine =
     \<lparr>memory = (\<lambda>_. zero_Order), brk = 0, BuyOrders = [], SellOrders = [], orderChannel = []\<rparr>"

text \<open>Allocation of an order holding the value \<open>v\<close>: a pointer that nothing else holds.\<close>

definition new_Order :: "MatchingEngine \<Rightarrow> Order \<Rightarrow> addr \<times> MatchingEngine" where
  "new_Order me v = (brk me, me\<lparr>memory := (memory me)(brk me := v), brk := Suc (brk me)\<rparr>)"

text \<open>\<^verbatim>\<open>me.orderChannel <- order\<close>\<close>

definition AddOrder :: "MatchingEngine \<Rightarrow> addr \<Rightarrow> MatchingEngine" where
  "AddOrder me order = me\<lparr>orderChannel := orderChannel me @ [order]\<rparr>"

definition addOrderInternal :: "MatchingEngine \<Rightarrow> addr \<Rightarrow> MatchingEngine" where
  "addOrderInternal me order =
     (if Type (memory me order) = Buy then
        (case heap_Push BuyHeap (memory me, BuyOrders me) order of
           (s, h) \<Rightarrow> me\<lparr>memory := s, BuyOrders := h\<rparr>)
      else
        (case heap_Push SellHeap (memory me, SellOrders me) order of
           (s, h) \<Rightarrow> me\<lparr>memory := s, SellOrders := h\<rparr>))"

text \<open>
  \<^verbatim>\<open>for order := range me.orderChannel { me.addOrderInternal(order) }\<close>: the worker receives
  the waiting pointers one by one. \<open>processOrders\<close> runs the loop until the channel is
  empty, where the worker blocks.
\<close>

fun processOrders_range :: "addr list \<Rightarrow> MatchingEngine \<Rightarrow> MatchingEngine" where
  "processOrders_range [] me = me"
| "processOrders_range (order # rest) me = processOrders_range rest (addOrderInternal me order)"

definition processOrders :: "MatchingEngine \<Rightarrow> MatchingEngine" where
  "processOrders me = processOrders_range (orderChannel me) (me\<lparr>orderChannel := []\<rparr>)"

text \<open>
  The handler decodes the request body into a fresh \<^verbatim>\<open>Order\<close>. The decoder is the JSON
  library's; its outcome is the handler's argument here: \<open>None\<close> when \<^verbatim>\<open>json.Unmarshal\<close>
  returns an error, the decoded struct otherwise. The result is the HTTP status.
\<close>

definition AddOrderHandler :: "MatchingEngine \<Rightarrow> Order option \<Rightarrow> nat \<times> MatchingEngine" where
  "AddOrderHandler engine body =
     (case body of
        None \<Rightarrow> (400, engine)
      | Some v \<Rightarrow> (case new_Order engine v of (order, engine') \<Rightarrow> (201, AddOrder engine' order)))"

definition min_go :: "64 word \<Rightarrow> 64 word \<Rightarrow> 64 word" where
  "min_go a b = (if a <s b then a else b)"

text \<open>
  What \<^verbatim>\<open>MatchOrders\<close> reports of a match is the line
  \<^verbatim>\<open>MATCH #%d: Compra %d @ %.2f vs Venta %d @ %.2f, Cantidad=%d\<close> with the arguments
  \<^verbatim>\<open>matchesFound, bestBuy.ID, bestBuy.Price, bestSell.ID, bestSell.Price, tradeAmount\<close>. A
  \<open>Match\<close> keeps the two pointers \<^verbatim>\<open>bestBuy\<close> and \<^verbatim>\<open>bestSell\<close> (the printed identifiers are
  those of the orders they refer to), the two prices as they are printed and \<^verbatim>\<open>tradeAmount\<close>;
  the number of the match is its position in the sweep's list. The line has no other price.
\<close>

record Match =
  buy_order :: addr
  sell_order :: addr
  buy_price :: real
  sell_price :: real
  quantity :: "64 word"

text \<open>
  \<^verbatim>\<open>executeTrade\<close> prints \<^verbatim>\<open>buyOrder.ID, sellOrder.ID, amount, sellOrder.Price\<close> (and the
  duration, left out): the only place of the source that gives a trade a single price.
  Nothing in the source calls it; in particular \<^verbatim>\<open>MatchOrders\<close> does not.
\<close>

definition executeTrade :: "store \<Rightarrow> addr \<Rightarrow> addr \<Rightarrow> 64 word \<Rightarrow> 64 word \<times> 64 word \<times> 64 word \<times> real" where
  "executeTrade s buyOrder sellOrder amount =
     (ID (s buyOrder), ID (s sellOrder), amount, Price (s sellOrder))"

text \<open>The engine and the local variables of \<^verbatim>\<open>MatchOrders\<close>, with the matches printed so far.\<close>

record sweep =
  eng :: MatchingEngine
  matchesFound :: nat
  iterationCount :: nat
  matches :: "Match list"

text \<open>
  One pass through the body of the \<^verbatim>\<open>for\<close> loop of \<^verbatim>\<open>MatchOrders\<close>. The boolean tells whether
  the loop goes on (\<open>True\<close>) or the pass ended in a \<^verbatim>\<open>break\<close> (\<open>False\<close>).
\<close>

definition MatchOrders_iter :: "sweep \<Rightarrow> error + (sweep \<times> bool)" where
  "MatchOrders_iter w0 =
     (let me = eng w0; w = w0\<lparr>iterationCount := iterationCount w0 + 1\<rparr> in
      if Len (BuyOrders me) = 0 then Inr (w, False)
      else
        (case heap_Pop BuyHeap (memory me, BuyOrders me) of
           Inl err \<Rightarrow> Inl err
         | Inr (bestBuy, (s1, buys1)) \<Rightarrow>
            (if Len (SellOrders me) = 0 then
               (case heap_Push BuyHeap (s1, buys1) bestBuy of
                  (s2, buys2) \<Rightarrow> Inr (w\<lparr>eng := me\<lparr>memory := s2, BuyOrders := buys2\<rparr>\<rparr>, False))
             else
               (case heap_Pop SellHeap (s1, SellOrders me) of
                  Inl err \<Rightarrow> Inl err
                | Inr (bestSell, (s2, sells1)) \<Rightarrow>
                   (if Price (s2 bestBuy) \<ge> Price (s2 bestSell) then
                      (let tradeAmount = min_go (Amount (s2 bestBuy)) (Amount (s2 bestSell));
                           s3 = s2(bestBuy := (s2 bestBuy)\<lparr>Amount := Amount (s2 bestBuy) - tradeAmount\<rparr>);
                           s4 = s3(bestSell := (s3 bestSell)\<lparr>Amount := Amount (s3 bestSell) - tradeAmount\<rparr>);
                           (s5, buys2) = (if 0 <s Amount (s4 bestBuy)
                                          then heap_Push BuyHeap (s4, buys1) bestBuy else (s4, buys1));
                           (s6, sells2) = (if 0 <s Amount (s5 bestSell)
                                           then heap_Push SellHeap (s5, sells1) bestSell else (s5, sells1))
                       in Inr (w\<lparr>eng := me\<lparr>memory := s6, BuyOrders := buys2, SellOrders := sells2\<rparr>,
                                 matchesFound := matchesFound w + 1,
                                 matches := matches w @
                                   [\<lparr>buy_order = bestBuy, sell_order = bestSell,
                                     buy_price = Price (s2 bestBuy), sell_price = Price (s2 bestSell),
                                     quantity = tradeAmount\<rparr>]\<rparr>,
                               \<not> (Len buys2 = 0 \<or> Len sells2 = 0)))
                    else
                      (case heap_Push BuyHeap (s2, buys1) bestBuy of
                         (s3, buys2) \<Rightarrow>
                           (case heap_Push SellHeap (s3, sells1) bestSell of
                              (s4, sells2) \<Rightarrow>
                                Inr (w\<lparr>eng := me\<lparr>memory := s4, BuyOrders := buys2, SellOrders := sells2\<rparr>\<rparr>,
                                     False))))))))"

text \<open>
  The \<^verbatim>\<open>for\<close> loop. It has no bound of its own, so the model is a partial function:
  \<open>None\<close> is a loop that never ends, \<open>Some (Inl err)\<close> a run-time panic, \<open>Some (Inr w)\<close> the
  state at the end of the sweep.
\<close>

partial_function (option) MatchOrders_loop :: "sweep \<Rightarrow> (error + sweep) option" where
  "MatchOrders_loop w =
     (case MatchOrders_iter w of
        Inl err \<Rightarrow> Some (Inl err)
      | Inr (w', continue) \<Rightarrow> if continue then MatchOrders_loop w' else Some (Inr w'))"

declare MatchOrders_loop.simps [code]

definition MatchOrders :: "MatchingEngine \<Rightarrow> (error + sweep) option" where
  "MatchOrders me =
     MatchOrders_loop \<lparr>eng = me, matchesFound = 0, iterationCount = 0, matches = []\<rparr>"

text \<open>
  \<^verbatim>\<open>order := *(*me.BuyOrders)[0]; return &order\<close>: the root's struct is copied into a new
  variable and the address of that variable is returned; \<open>None\<close> is \<^verbatim>\<open>nil\<close>.
\<close>

definition GetHighestBuyOrder :: "MatchingEngine \<Rightarrow> addr option \<times> MatchingEngine" where
  "GetHighestBuyOrder me =
     (if Len (BuyOrders me) > 0 then
        (case new_Order me (memory me (BuyOrders me ! 0)) of (order, me') \<Rightarrow> (Some order, me'))
      else (None, me))"

definition GetHighestSellOrder :: "MatchingEngine \<Rightarrow> addr option \<times> MatchingEngine" where
  "GetHighestSellOrder me =
     (if Len (SellOrders me) > 0 then
        (case new_Order me (memory me (SellOrders me ! 0)) of (order, me') \<Rightarrow> (Some order, me'))
      else (None, me))"

section \<open>The running program\<close>

text \<open>
  \<^verbatim>\<open>main\<close> creates the engine, starts the ingestion worker (\<^verbatim>\<open>processOrders\<close>) and the matcher
  (\<^verbatim>\<open>StartMatching\<close>: \<^verbatim>\<open>MatchOrders\<close> every 50 ms), and serves \<^verbatim>\<open>POST /orders\<close>,
  \<^verbatim>\<open>GET /highest-buy-order\<close> and \<^verbatim>\<open>GET /highest-sell-order\<close>. What the engine observes is
  a sequence of these events; each is run to its end before the next (the two mutexes are
  not modelled). A posted order is handed to the worker through the unbuffered channel and
  inserted by it. Next to the engine the server state keeps two lists for the statements
  below: every match printed so far, and every decoded order that was accepted, with the
  pointer \<^verbatim>\<open>new(Order)\<close> gave it.
\<close>

datatype request = PostOrders "Order option" | MatcherTick | GetHighestBuy | GetHighestSell

record server =
  core :: MatchingEngine
  printed :: "Match list"
  accepted :: "(addr \<times> Order) list"

definition start :: server where
  "start = \<lparr>core = NewMatchingEngine, printed = [], accepted = []\<rparr>"

fun serve :: "server \<Rightarrow> request \<Rightarrow> (error + server) option" where
  "serve ss (PostOrders body) =
     Some (Inr (ss\<lparr>core := processOrders (snd (AddOrderHandler (core ss) body)),
                    accepted := accepted ss @
                      (case body of None \<Rightarrow> [] | Some v \<Rightarrow> [(brk (core ss), v)])\<rparr>))"
| "serve ss MatcherTick =
     (case MatchOrders (core ss) of
        None \<Rightarrow> None
      | Some (Inl err) \<Rightarrow> Some (Inl err)
      | Some (Inr w) \<Rightarrow> Some (Inr (ss\<lparr>core := eng w, printed := printed ss @ matches w\<rparr>)))"
| "serve ss GetHighestBuy = Some (Inr (ss\<lparr>core := snd (GetHighestBuyOrder (core ss))\<rparr>))"
| "serve ss GetHighestSell = Some (Inr (ss\<lparr>core := snd (GetHighestSellOrder (core ss))\<rparr>))"

fun run :: "server \<Rightarrow> request list \<Rightarrow> (error + server) option" where
  "run ss [] = Some (Inr ss)"
| "run ss (r # rs) =
     (case serve ss r of
        None \<Rightarrow> None
      | Some (Inl err) \<Rightarrow> Some (Inl err)
      | Some (Inr ss') \<Rightarrow> run ss' rs)"

section \<open>Notions used in the statements\<close>

text \<open>An order without its bookkeeping slot: identifier, side, price and residual amount.\<close>

definition logical :: "Order \<Rightarrow> Order" where
  "logical v = v\<lparr>Index := 0\<rparr>"

text \<open>
  The slice holds no pointer twice and every order's \<^verbatim>\<open>Index\<close> is its position.
\<close>

definition idx_ok :: "heap \<Rightarrow> bool" where
  "idx_ok sh = (distinct (snd sh) \<and> (\<forall>i<length (snd sh). Index (fst sh (snd sh ! i)) = int i))"

text \<open>
  The heap order on the first \<open>n\<close> positions: no order is \<^verbatim>\<open>Less\<close> than its parent. The whole
  slice is in heap order when this holds up to its length.
\<close>

definition heap_upto :: "iface \<Rightarrow> heap \<Rightarrow> nat \<Rightarrow> bool" where
  "heap_upto k sh n = (\<forall>m<n. 0 < m \<longrightarrow> \<not> Less k sh m ((m - 1) div 2))"

definition heap_ord :: "iface \<Rightarrow> heap \<Rightarrow> bool" where
  "heap_ord k sh = heap_upto k sh (length (snd sh))"

text \<open>
  In each non-empty book no order has a better price than the root: none higher in the buy
  book, none lower in the sell book.
\<close>

definition roots_extremal :: "MatchingEngine \<Rightarrow> bool" where
  "roots_extremal me =
     ((\<forall>p \<in> set (BuyOrders me). Price (memory me p) \<le> Price (memory me (BuyOrders me ! 0))) \<and>
      (\<forall>p \<in> set (SellOrders me). Price (memory me (SellOrders me ! 0)) \<le> Price (memory me p)))"

text \<open>Every pointer that rests in the books rests there once: in one book, at one position.\<close>

definition no_shared :: "MatchingEngine \<Rightarrow> bool" where
  "no_shared me = distinct (BuyOrders me @ SellOrders me)"

text \<open>Every order resting in a book has a positive amount.\<close>

definition all_positive :: "MatchingEngine \<Rightarrow> bool" where
  "all_positive me =
     (\<forall>p \<in> set (BuyOrders me) \<union> set (SellOrders me). 0 <s Amount (memory me p))"

text \<open>No order resting in a book has a negative amount.\<close>

definition nonneg :: "MatchingEngine \<Rightarrow> bool" where
  "nonneg me = (\<forall>p \<in> set (BuyOrders me) \<union> set (SellOrders me). 0 \<le>s Amount (memory me p))"

text \<open>The number of orders resting in the two books.\<close>

definition bsize :: "sweep \<Rightarrow> nat" where
  "bsize w = length (BuyOrders (eng w)) + length (SellOrders (eng w))"

text \<open>
  The quantity an order has traded in a list of matches, read as a signed number, and the
  amount it still has resting in a book (zero when it rests in none).
\<close>

definition traded :: "Match list \<Rightarrow> addr \<Rightarrow> int" where
  "traded ms p = (\<Sum>m\<leftarrow>ms. if buy_order m = p \<or> sell_order m = p then sint (quantity m) else 0)"

definition residual :: "MatchingEngine \<Rightarrow> addr \<Rightarrow> int" where
  "residual me p =
     (if p \<in> set (BuyOrders me) \<union> set (SellOrders me) then sint (Amount (memory me p)) else 0)"

text \<open>
  The total traded on the buy side is the sum, over the accepted orders of type \<^verbatim>\<open>"BUY"\<close>,
  of what each has traded; the total on the sell side is the sum over all other accepted
  orders.
\<close>

definition traded_buy_side :: "server \<Rightarrow> int" where
  "traded_buy_side ss =
     (\<Sum>(p, v)\<leftarrow>accepted ss. if Type v = ''BUY'' then traded (printed ss) p else 0)"

definition traded_sell_side :: "server \<Rightarrow> int" where
  "traded_sell_side ss =
     (\<Sum>(p, v)\<leftarrow>accepted ss. if Type v \<noteq> ''BUY'' then traded (printed ss) p else 0)"

text \<open>
  Two books over one memory: each holds its pointers once, with the right \<^verbatim>\<open>Index\<close>, in
  heap order, and no pointer is in both.
\<close>

definition two_ok :: "store \<Rightarrow> iface \<Rightarrow> addr list \<Rightarrow> iface \<Rightarrow> addr list \<Rightarrow> bool" where
  "two_ok s k h k' h' =
     (idx_ok (s, h) \<and> idx_ok (s, h') \<and> set h \<inter> set h' = {} \<and>
      heap_ord k (s, h) \<and> heap_ord k' (s, h'))"

text \<open>The two books of an engine fit together in this way.\<close>

definition books_ok :: "MatchingEngine \<Rightarrow> bool" where
  "books_ok me = two_ok (memory me) BuyHeap (BuyOrders me) SellHeap (SellOrders me)"

text \<open>
  A state of the engine as the running program can have it: the books are well formed, the
  pointers waiting in the channel are in no book, and \<^verbatim>\<open>new\<close> has handed out every pointer
  the engine holds.
\<close>

definition engine_ok :: "MatchingEngine \<Rightarrow> bool" where
  "engine_ok me =
     (books_ok me \<and> distinct (orderChannel me) \<and>
      set (orderChannel me) \<inter> (set (BuyOrders me) \<union> set (SellOrders me)) = {} \<and>
      (\<forall>p \<in> set (BuyOrders me) \<union> set (SellOrders me) \<union> set (orderChannel me). p < brk me))"

text \<open>
  The pointer \<open>p\<close> that a query returned in state \<open>me'\<close> refers to a copy of the order at
  \<open>x\<close> in state \<open>me\<close>: the copy has the root's contents, it is in neither book nor in
  the channel, the query changed nothing else, and whatever the engine does afterwards the
  copy stays as it is.
\<close>

definition clone_of :: "MatchingEngine \<Rightarrow> addr \<Rightarrow> addr \<Rightarrow> MatchingEngine \<Rightarrow> bool" where
  "clone_of me x p me' =
     (memory me' p = memory me x \<and>
      p \<notin> set (BuyOrders me) \<union> set (SellOrders me) \<union> set (orderChannel me) \<and>
      BuyOrders me' = BuyOrders me \<and> SellOrders me' = SellOrders me \<and>
      orderChannel me' = orderChannel me \<and>
      (\<forall>q. q \<noteq> p \<longrightarrow> memory me' q = memory me q) \<and>
      (\<forall>rs ss. core ss = me' \<longrightarrow>
          (\<exists>ss'. run ss rs = Some (Inr ss') \<and> memory (core ss') p = memory me' p)))"

section \<open>Invariants used in the proofs\<close>

text \<open>The child that \<^verbatim>\<open>down\<close> compares with position \<open>i\<close>: \<^verbatim>\<open>j\<close> after the inner \<^verbatim>\<open>if\<close>.\<close>

definition child :: "iface \<Rightarrow> heap \<Rightarrow> nat \<Rightarrow> nat \<Rightarrow> nat" where
  "child k sh i n = (if 2 * i + 1 + 1 < n \<and> Less k sh (2 * i + 1 + 1) (2 * i + 1) then 2 * i + 1 + 1 else 2 * i + 1)"

text \<open>The parent of position \<open>m\<close> in the array-embedded heap: \<^verbatim>\<open>(m - 1) / 2\<close>.\<close>

definition par :: "nat \<Rightarrow> nat" where
  "par m = (m - 1) div 2"

text \<open>\<open>above k x y\<close>: under the order of heap \<open>k\<close> the price \<open>x\<close> may sit above the price \<open>y\<close>.\<close>

definition above :: "iface \<Rightarrow> real \<Rightarrow> real \<Rightarrow> bool" where
  "above k x y = (case k of BuyHeap \<Rightarrow> x \<ge> y | SellHeap \<Rightarrow> x \<le> y)"

text \<open>The price of the order at position \<open>m\<close>.\<close>

definition key :: "heap \<Rightarrow> nat \<Rightarrow> real" where
  "key sh m = Price (fst sh (snd sh ! m))"

text \<open>
  The loop invariants of \<^verbatim>\<open>up\<close> and \<^verbatim>\<open>down\<close>: the heap order holds everywhere except between
  the moving position and its parent (for \<^verbatim>\<open>up\<close>) or its children (for \<^verbatim>\<open>down\<close>), and the
  parent of the moving position may sit above its children.
\<close>

definition up_inv :: "iface \<Rightarrow> heap \<Rightarrow> nat \<Rightarrow> bool" where
  "up_inv k sh j =
     (j < length (snd sh) \<and>
      (\<forall>m<length (snd sh). 0 < m \<and> m \<noteq> j \<longrightarrow> above k (key sh (par m)) (key sh m)) \<and>
      (\<forall>m<length (snd sh). 0 < m \<and> par m = j \<and> 0 < j \<longrightarrow> above k (key sh (par j)) (key sh m)))"

definition down_inv :: "iface \<Rightarrow> heap \<Rightarrow> nat \<Rightarrow> nat \<Rightarrow> bool" where
  "down_inv k sh i n =
     (n \<le> length (snd sh) \<and>
      (\<forall>m<n. 0 < m \<and> par m \<noteq> i \<longrightarrow> above k (key sh (par m)) (key sh m)) \<and>
      (\<forall>m<n. 0 < m \<and> par m = i \<and> 0 < i \<longrightarrow> above k (key sh (par i)) (key sh m)))"

text \<open>
  What one pass of the loop does to a state whose books share no pointer, in terms of the
  state before: \<open>b\<close> and \<open>a\<close> are the roots of the two books, \<open>t\<close> the smaller of their
  amounts, and the pass trades when both books are non-empty and the prices cross.
\<close>

definition pass :: "sweep \<Rightarrow> sweep \<Rightarrow> bool \<Rightarrow> bool" where
  "pass w w' c =
     (let me = eng w; me' = eng w'; s = memory me; s' = memory me';
          b = BuyOrders me ! 0; a = SellOrders me ! 0;
          t = min_go (Amount (s b)) (Amount (s a));
          crossing = (BuyOrders me \<noteq> [] \<and> SellOrders me \<noteq> [] \<and> Price (s a) \<le> Price (s b))
      in iterationCount w' = iterationCount w + 1 \<and>
         brk me' = brk me \<and> orderChannel me' = orderChannel me \<and>
         (\<forall>p. p \<notin> set (BuyOrders me) \<union> set (SellOrders me) \<longrightarrow> s' p = s p) \<and>
         (\<forall>p. ID (s' p) = ID (s p) \<and> Type (s' p) = Type (s p) \<and> Price (s' p) = Price (s p)) \<and>
         (\<forall>p. Amount (s' p) =
               (if crossing \<and> (p = b \<or> p = a) then Amount (s p) - t else Amount (s p))) \<and>
         mset (BuyOrders me') =
           (if crossing \<and> \<not> 0 <s Amount (s b) - t then mset (BuyOrders me) - {#b#}
            else mset (BuyOrders me)) \<and>
         mset (SellOrders me') =
           (if crossing \<and> \<not> 0 <s Amount (s a) - t then mset (SellOrders me) - {#a#}
            else mset (SellOrders me)) \<and>
         matches w' =
           (if crossing then matches w @ [\<lparr>buy_order = b, sell_order = a, buy_price = Price (s b),
                                           sell_price = Price (s a), quantity = t\<rparr>]
            else matches w) \<and>
         matchesFound w' = (if crossing then matchesFound w + 1 else matchesFound w) \<and>
         c = (crossing \<and> BuyOrders me' \<noteq> [] \<and> SellOrders me' \<noteq> []))"

text \<open>
  What a whole sweep keeps: the relation between the state at the start of the sweep and a
  state after some passes.
\<close>

definition kept :: "sweep \<Rightarrow> sweep \<Rightarrow> bool" where
  "kept w v =
     (no_shared (eng v) \<and>
      (books_ok (eng w) \<longrightarrow> books_ok (eng v)) \<and>
      (all_positive (eng w) \<longrightarrow> all_positive (eng v)) \<and>
      set (BuyOrders (eng v)) \<subseteq> set (BuyOrders (eng w)) \<and>
      set (SellOrders (eng v)) \<subseteq> set (SellOrders (eng w)) \<and>
      brk (eng v) = brk (eng w) \<and> orderChannel (eng v) = orderChannel (eng w) \<and>
      (\<forall>p. p \<notin> set (BuyOrders (eng w)) \<union> set (SellOrders (eng w)) \<longrightarrow>
           memory (eng v) p = memory (eng w) p) \<and>
      (\<forall>p. ID (memory (eng v) p) = ID (memory (eng w) p) \<and>
           Type (memory (eng v) p) = Type (memory (eng w) p) \<and>
           Price (memory (eng v) p) = Price (memory (eng w) p)))"

text \<open>A pointer the engine does not hold: allocated, in no book, not in the channel.\<close>

definition outside :: "MatchingEngine \<Rightarrow> addr \<Rightarrow> bool" where
  "outside me p =
     (p < brk me \<and> p \<notin> set (BuyOrders me) \<union> set (SellOrders me) \<union> set (orderChannel me))"

text \<open>
  The books of a running server and its two lists fit together: every accepted order got a
  pointer of its own, what it has traded and what it has resting add up to the amount it
  was submitted with, the buy book holds accepted orders of type \<^verbatim>\<open>"BUY"\<close> only and the sell
  book accepted orders of any other type, and every printed match pairs an order of the first
  kind with one of the second.
\<close>

definition ledger_ok :: "server \<Rightarrow> bool" where
  "ledger_ok ss =
     (engine_ok (core ss) \<and> orderChannel (core ss) = [] \<and> nonneg (core ss) \<and>
      distinct (map fst (accepted ss)) \<and>
      (\<forall>(p, v) \<in> set (accepted ss).
          p < brk (core ss) \<and> traded (printed ss) p + residual (core ss) p = sint (Amount v)) \<and>
      (\<forall>p \<in> set (BuyOrders (core ss)). \<exists>v. (p, v) \<in> set (accepted ss) \<and> Type v = ''BUY'') \<and>
      (\<forall>p \<in> set (SellOrders (core ss)). \<exists>v. (p, v) \<in> set (accepted ss) \<and> Type v \<noteq> ''BUY'') \<and>
      (\<forall>m \<in> set (printed ss).
          (\<exists>v. (buy_order m, v) \<in> set (accepted ss) \<and> Type v = ''BUY'') \<and>
          (\<exists>v. (sell_order m, v) \<in> set (accepted ss) \<and> Type v \<noteq> ''BUY'')))"

section \<open>Concrete orders and engines\<close>

text \<open>An order value as a request body carries it: identifier, side, price, amount.\<close>

definition order_of :: "64 word \<Rightarrow> OrderType \<Rightarrow> real \<Rightarrow> 64 word \<Rightarrow> Order" where
  "order_of i t p a = \<lparr>ID = i, Type = t, Price = p, Amount = a, Index = 0\<rparr>"

text \<open>
  The books after the three submissions \<^verbatim>\<open>{1, BUY, 105, 4}\<close>, \<^verbatim>\<open>{2, BUY, 100, 2}\<close>,
  \<^verbatim>\<open>{3, SELL, 99, 5}\<close>, after \<^verbatim>\<open>{1, BUY, 105, 7}\<close>, \<^verbatim>\<open>{2, SELL, 99, 5}\<close>, and after
  \<^verbatim>\<open>{1, BUY, 99, 5}\<close>, \<^verbatim>\<open>{2, SELL, 101, 5}\<close>.
\<close>

definition crossed_engine :: MatchingEngine where
  "crossed_engine =
     \<lparr>memory = (\<lambda>_. zero_Order)
        (0 := order_of 1 ''BUY'' 105 4,
         1 := (order_of 2 ''BUY'' 100 2)\<lparr>Index := 1\<rparr>,
         2 := order_of 3 ''SELL'' 99 5),
      brk = 3, BuyOrders = [0, 1], SellOrders = [2], orderChannel = []\<rparr>"


definition quiet_engine :: MatchingEngine where
  "quiet_engine =
     \<lparr>memory = (\<lambda>_. zero_Order)(0 := order_of 1 ''BUY'' 99 5, 1 := order_of 2 ''SELL'' 101 5),
      brk = 2, BuyOrders = [0], SellOrders = [1], orderChannel = []\<rparr>"

section \<open>Loops over the heap\<close>

lemma logical_fields:
  "logical v = logical v' \<Longrightarrow> ID v = ID v' \<and> Type v = Type v' \<and> Price v = Price v' \<and> Amount v = Amount v'"
  by (cases v, cases v') (simp add: logical_def)

lemma logical_Index_upd [simp]: "logical (v\<lparr>Index := x\<rparr>) = logical v"
  by (simp add: logical_def)

lemma Swap_snd [simp]: "snd (Swap (s, h) i j) = h[i := h ! j, j := h ! i]"
  by (simp add: Swap_def Let_def)

lemma Swap_length [simp]: "length (snd (Swap sh i j)) = length (snd sh)"
  by (cases sh) simp

lemma Swap_logical [simp]: "logical (fst (Swap sh i j) p) = logical (fst sh p)"
  by (cases sh) (simp add: Swap_def Let_def)

lemma Swap_mset [simp]:
  "i < length (snd sh) \<Longrightarrow> j < length (snd sh) \<Longrightarrow> mset (snd (Swap sh i j)) = mset (snd sh)"
  by (cases sh) (simp add: mset_swap)

lemma Swap_frame:
  "i < length (snd sh) \<Longrightarrow> j < length (snd sh) \<Longrightarrow> p \<notin> set (snd sh) \<Longrightarrow> fst (Swap sh i j) p = fst sh p"
  by (cases sh) (auto simp add: Swap_def Let_def nth_list_update)


declare up.simps [simp del] down.simps [simp del]

lemma down_unfold:
  "down k sh i n =
     (if n \<le> 2 * i + 1 then sh
      else if \<not> Less k sh (child k sh i n) i then sh
      else down k (Swap sh i (child k sh i n)) (child k sh i n) n)"
  by (subst down.simps) (simp add: Let_def child_def)

lemma up_unfold:
  "up k sh j =
     (if (j - 1) div 2 = j \<or> \<not> Less k sh j ((j - 1) div 2) then sh
      else up k (Swap sh ((j - 1) div 2) j) ((j - 1) div 2))"
  by (subst up.simps) (simp add: Let_def)

lemma child_cases: "child k sh i n = 2 * i + 1 \<or> child k sh i n = 2 * i + 2 \<and> 2 * i + 2 < n"
  by (simp add: child_def)

lemma child_less: "\<not> n \<le> 2 * i + 1 \<Longrightarrow> child k sh i n < n"
  by (simp add: child_def)

lemma child_gt: "i < child k sh i n"
  by (simp add: child_def)


lemma down_rule:
  assumes init: "P sh i"
    and step: "\<And>sh i. P sh i \<Longrightarrow> \<not> n \<le> 2 * i + 1 \<Longrightarrow> Less k sh (child k sh i n) i \<Longrightarrow>
                 P (Swap sh i (child k sh i n)) (child k sh i n)"
    and stop: "\<And>sh i. P sh i \<Longrightarrow> n \<le> 2 * i + 1 \<or> \<not> Less k sh (child k sh i n) i \<Longrightarrow> Q sh"
  shows "Q (down k sh i n)"
  using init
proof (induction "n - i" arbitrary: sh i rule: less_induct)
  case less
  define j where "j = child k sh i n"
  show ?case
  proof (cases "n \<le> 2 * i + 1 \<or> \<not> Less k sh j i")
    case True
    then have "Q sh" using stop [OF less(2)] by (simp add: j_def)
    then show ?thesis using True unfolding j_def by (subst down_unfold) auto
  next
    case False
    then have j1: "\<not> n \<le> 2 * i + 1" and ls: "Less k sh j i" by auto
    have "P (Swap sh i j) j" using step [OF less(2)] j1 ls by (simp add: j_def)
    moreover have "n - j < n - i" using child_gt [of i k sh n] child_less [OF j1, of k sh] by (simp add: j_def)
    ultimately have "Q (down k (Swap sh i j) j n)" using less(1) by blast
    then show ?thesis using False unfolding j_def by (subst down_unfold) simp
  qed
qed

lemma up_rule:
  assumes init: "P sh j"
    and step: "\<And>sh j. P sh j \<Longrightarrow> (j - 1) div 2 \<noteq> j \<Longrightarrow> Less k sh j ((j - 1) div 2) \<Longrightarrow>
                 P (Swap sh ((j - 1) div 2) j) ((j - 1) div 2)"
    and stop: "\<And>sh j. P sh j \<Longrightarrow> (j - 1) div 2 = j \<or> \<not> Less k sh j ((j - 1) div 2) \<Longrightarrow> Q sh"
  shows "Q (up k sh j)"
  using init
proof (induction j arbitrary: sh rule: less_induct)
  case (less j)
  define i where "i = (j - 1) div 2"
  show ?case
  proof (cases "i = j \<or> \<not> Less k sh j i")
    case True
    then have "Q sh" using stop [OF less(2)] by (simp add: i_def)
    then show ?thesis using True unfolding i_def by (subst up_unfold) auto
  next
    case False
    then have ij: "i \<noteq> j" and ls: "Less k sh j i" by auto
    have "P (Swap sh i j) i" using step [OF less(2)] ij ls by (simp add: i_def)
    moreover have "i < j" using ij unfolding i_def by arith
    ultimately have "Q (up k (Swap sh i j) i)" using less(1) by blast
    then show ?thesis using False unfolding i_def by (subst up_unfold) simp
  qed
qed

lemma down_preserves:
  assumes step: "\<And>sh i j. i < n \<Longrightarrow> j < n \<Longrightarrow> n \<le> length (snd sh) \<Longrightarrow> P sh \<Longrightarrow> P (Swap sh i j)"
    and init: "n \<le> length (snd sh)" "P sh"
  shows "P (down k sh i n)"
proof (rule down_rule [where P = "\<lambda>sh i. n \<le> length (snd sh) \<and> P sh"])
  show "n \<le> length (snd sh) \<and> P sh" using init by simp
next
  fix sh i
  assume a: "n \<le> length (snd sh) \<and> P sh" and b: "\<not> n \<le> 2 * i + 1"
  have "child k sh i n < n" using child_less [OF b] .
  moreover have "i < n" using b by simp
  ultimately show "n \<le> length (snd (Swap sh i (child k sh i n))) \<and> P (Swap sh i (child k sh i n))"
    using a step by simp
next
  fix sh :: heap
  assume "n \<le> length (snd sh) \<and> P sh"
  then show "P sh" by simp
qed

lemma up_preserves:
  assumes step: "\<And>sh i j. i < length (snd sh) \<Longrightarrow> j < length (snd sh) \<Longrightarrow> P sh \<Longrightarrow> P (Swap sh i j)"
    and init: "j < length (snd sh)" "P sh"
  shows "P (up k sh j)"
proof (rule up_rule [where P = "\<lambda>sh j. j < length (snd sh) \<and> P sh"])
  show "j < length (snd sh) \<and> P sh" using init by simp
next
  fix sh j
  assume a: "j < length (snd sh) \<and> P sh"
  then have "(j - 1) div 2 < length (snd sh)" by arith
  then show "(j - 1) div 2 < length (snd (Swap sh ((j - 1) div 2) j)) \<and> P (Swap sh ((j - 1) div 2) j)"
    using a step by simp
next
  fix sh :: heap and j :: nat
  assume "j < length (snd sh) \<and> P sh"
  then show "P sh" by simp
qed


subsection \<open>What the loops keep\<close>

lemma up_length [simp]: "length (snd (up k sh j)) = length (snd sh)"
  by (rule up_rule [where P = "\<lambda>sh' j. length (snd sh') = length (snd sh)"]) simp_all

lemma down_length [simp]: "length (snd (down k sh i n)) = length (snd sh)"
  by (rule down_rule [where P = "\<lambda>sh' i. length (snd sh') = length (snd sh)"]) simp_all

lemma up_logical [simp]: "logical (fst (up k sh j) p) = logical (fst sh p)"
  by (rule up_rule [where P = "\<lambda>sh' j. logical (fst sh' p) = logical (fst sh p)"]) simp_all

lemma down_logical [simp]: "logical (fst (down k sh i n) p) = logical (fst sh p)"
  by (rule down_rule [where P = "\<lambda>sh' i. logical (fst sh' p) = logical (fst sh p)"]) simp_all

lemma up_mset [simp]: "j < length (snd sh) \<Longrightarrow> mset (snd (up k sh j)) = mset (snd sh)"
  by (rule up_preserves [where P = "\<lambda>sh'. mset (snd sh') = mset (snd sh)"]) simp_all

lemma down_mset [simp]: "n \<le> length (snd sh) \<Longrightarrow> mset (snd (down k sh i n)) = mset (snd sh)"
  by (rule down_preserves [where P = "\<lambda>sh'. mset (snd sh') = mset (snd sh)"]) simp_all

lemma up_frame:
  assumes "j < length (snd sh)" "p \<notin> set (snd sh)"
  shows "fst (up k sh j) p = fst sh p"
proof -
  have "mset (snd (up k sh j)) = mset (snd sh) \<and> fst (up k sh j) p = fst sh p"
  proof (rule up_preserves [where P = "\<lambda>sh'. mset (snd sh') = mset (snd sh) \<and> fst sh' p = fst sh p"])
    fix sh' :: heap and i j
    assume a: "i < length (snd sh')" "j < length (snd sh')"
      and b: "mset (snd sh') = mset (snd sh) \<and> fst sh' p = fst sh p"
    have "p \<notin> set (snd sh')" using b assms(2) by (metis set_mset_mset)
    then show "mset (snd (Swap sh' i j)) = mset (snd sh) \<and> fst (Swap sh' i j) p = fst sh p"
      using a b by (simp add: Swap_frame)
  qed (use assms in simp_all)
  then show ?thesis by simp
qed

lemma down_frame:
  assumes "n \<le> length (snd sh)" "p \<notin> set (snd sh)"
  shows "fst (down k sh i n) p = fst sh p"
proof -
  have "mset (snd (down k sh i n)) = mset (snd sh) \<and> fst (down k sh i n) p = fst sh p"
  proof (rule down_preserves [where P = "\<lambda>sh'. mset (snd sh') = mset (snd sh) \<and> fst sh' p = fst sh p"])
    fix sh' :: heap and i j
    assume a: "i < n" "j < n" "n \<le> length (snd sh')"
      and b: "mset (snd sh') = mset (snd sh) \<and> fst sh' p = fst sh p"
    have "p \<notin> set (snd sh')" using b assms(2) by (metis set_mset_mset)
    then show "mset (snd (Swap sh' i j)) = mset (snd sh) \<and> fst (Swap sh' i j) p = fst sh p"
      using a b by (simp add: Swap_frame)
  qed (use assms in simp_all)
  then show ?thesis by simp
qed

lemma down_nth:
  assumes "n \<le> length (snd sh)" "n \<le> m"
  shows "snd (down k sh i n) ! m = snd sh ! m"
proof (rule down_preserves [where P = "\<lambda>sh'. snd sh' ! m = snd sh ! m"])
  fix sh' :: heap and i j
  assume "i < n" "j < n" "n \<le> length (snd sh')" "snd sh' ! m = snd sh ! m"
  then show "snd (Swap sh' i j) ! m = snd sh ! m"
    using assms(2) by (cases sh') simp
qed (use assms in simp_all)


lemma Swap_distinct:
  "i < length (snd sh) \<Longrightarrow> j < length (snd sh) \<Longrightarrow> distinct (snd (Swap sh i j)) = distinct (snd sh)"
  by (metis Swap_mset mset_eq_imp_distinct_iff)

lemma Swap_idx_ok:
  assumes "i < length (snd sh)" "j < length (snd sh)" "idx_ok sh"
  shows "idx_ok (Swap sh i j)"
proof -
  obtain s h where sh: "sh = (s, h)" by (cases sh)
  have d: "distinct h" and ix: "\<And>m. m < length h \<Longrightarrow> Index (s (h ! m)) = int m"
    using assms(3) by (simp_all add: idx_ok_def sh)
  have ne: "\<And>a b. a < length h \<Longrightarrow> b < length h \<Longrightarrow> a \<noteq> b \<Longrightarrow> h ! a \<noteq> h ! b"
    using d by (simp add: nth_eq_iff_index_eq)
  have "distinct (snd (Swap sh i j))" using assms d by (simp add: Swap_distinct sh del: Swap_snd)
  moreover have "Index (fst (Swap sh i j) (snd (Swap sh i j) ! m)) = int m" if "m < length h" for m
    using that assms(1,2) ix ne unfolding sh Swap_def Let_def
    by (auto simp add: nth_list_update)
  ultimately show ?thesis by (simp add: idx_ok_def sh)
qed

lemma up_idx_ok: "j < length (snd sh) \<Longrightarrow> idx_ok sh \<Longrightarrow> idx_ok (up k sh j)"
  by (rule up_preserves [where P = idx_ok]) (simp_all add: Swap_idx_ok)

lemma down_idx_ok: "n \<le> length (snd sh) \<Longrightarrow> idx_ok sh \<Longrightarrow> idx_ok (down k sh i n)"
  by (rule down_preserves [where P = idx_ok]) (simp_all add: Swap_idx_ok)

lemma Push_idx_ok:
  assumes "idx_ok sh" "x \<notin> set (snd sh)"
  shows "idx_ok (Push sh x)"
  using assms by (cases sh) (auto simp add: idx_ok_def Push_def nth_append)

lemma Pop_idx_ok:
  assumes "idx_ok sh" "Pop sh = Inr (x, sh')"
  shows "idx_ok sh' \<and> Index (fst sh' x) = - 1 \<and> x = last (snd sh) \<and> snd sh' = butlast (snd sh)"
proof -
  obtain s h where sh: "sh = (s, h)" by (cases sh)
  have ne: "h \<noteq> []" using assms(2) by (auto simp add: Pop_def sh Let_def split: if_splits)
  have x: "x = last h" and sh': "sh' = (s(x := (s x)\<lparr>Index := - 1\<rparr>), butlast h)"
    using assms(2) ne by (auto simp add: Pop_def sh Let_def last_conv_nth butlast_conv_take)
  have d: "distinct h" and ix: "\<And>m. m < length h \<Longrightarrow> Index (s (h ! m)) = int m"
    using assms(1) by (simp_all add: idx_ok_def sh)
  have "x \<notin> set (butlast h)" using d ne x
    by (metis append_butlast_last_id distinct_append disjoint_iff list.set_intros(1) distinct.simps(2) not_distinct_conv_prefix)
  then show ?thesis using d ix x sh'
    by (auto simp add: idx_ok_def sh distinct_butlast nth_butlast in_set_conv_nth)
qed


subsection \<open>heap.Push and heap.Pop\<close>

lemma Push_snd [simp]: "snd (Push sh x) = snd sh @ [x]"
  by (cases sh) (simp add: Push_def)

lemma Push_logical [simp]: "logical (fst (Push sh x) p) = logical (fst sh p)"
  by (cases sh) (simp add: Push_def)

lemma Push_frame: "p \<noteq> x \<Longrightarrow> fst (Push sh x) p = fst sh p"
  by (cases sh) (simp add: Push_def)

lemma heap_Push_length [simp]: "length (snd (heap_Push k sh x)) = Suc (length (snd sh))"
  by (simp add: heap_Push_def Let_def)

lemma heap_Push_mset [simp]: "mset (snd (heap_Push k sh x)) = add_mset x (mset (snd sh))"
  by (simp add: heap_Push_def Let_def Len_def)

lemma heap_Push_set [simp]: "set (snd (heap_Push k sh x)) = insert x (set (snd sh))"
  by (metis heap_Push_mset set_mset_add_mset_insert set_mset_mset)

lemma heap_Push_logical [simp]: "logical (fst (heap_Push k sh x) p) = logical (fst sh p)"
  by (simp add: heap_Push_def Let_def)

lemma heap_Push_frame:
  "p \<notin> set (snd sh) \<Longrightarrow> p \<noteq> x \<Longrightarrow> fst (heap_Push k sh x) p = fst sh p"
  by (simp add: heap_Push_def Let_def Len_def up_frame Push_frame)

lemma heap_Push_idx_ok:
  "idx_ok sh \<Longrightarrow> x \<notin> set (snd sh) \<Longrightarrow> idx_ok (heap_Push k sh x)"
  by (simp add: heap_Push_def Let_def Len_def up_idx_ok Push_idx_ok)

lemma heap_Pop_empty: "snd sh = [] \<Longrightarrow> heap_Pop k sh = Inl IndexOutOfRange"
  by (simp add: heap_Pop_def Len_def)

lemma Pop_Inr:
  "snd sh \<noteq> [] \<Longrightarrow>
   Pop sh = Inr (last (snd sh), ((fst sh)(last (snd sh) := (fst sh (last (snd sh)))\<lparr>Index := - 1\<rparr>), butlast (snd sh)))"
  by (cases sh) (simp add: Pop_def Let_def last_conv_nth butlast_conv_take)

lemma heap_Pop_unfold:
  "snd sh \<noteq> [] \<Longrightarrow>
   heap_Pop k sh = Pop (down k (Swap sh 0 (length (snd sh) - 1)) 0 (length (snd sh) - 1))"
  by (simp add: heap_Pop_def Len_def Let_def)

lemma heap_Pop_Inr:
  assumes "snd sh \<noteq> []"
  shows "\<exists>sh'. heap_Pop k sh = Inr (snd sh ! 0, sh')"
proof -
  define n where "n = length (snd sh) - 1"
  define sh2 where "sh2 = down k (Swap sh 0 n) 0 n"
  have n: "n < length (snd sh)" using assms by (simp add: n_def)
  have "snd sh2 ! n = snd (Swap sh 0 n) ! n" unfolding sh2_def by (rule down_nth) (use n in simp_all)
  also have "\<dots> = snd sh ! 0" using n by (cases sh) simp
  finally have "last (snd sh2) = snd sh ! 0"
    using n by (simp add: last_conv_nth sh2_def n_def flip: length_greater_0_conv)
  moreover have "snd sh2 \<noteq> []" using n by (auto simp add: sh2_def simp flip: length_greater_0_conv)
  ultimately show ?thesis using Pop_Inr [of sh2] heap_Pop_unfold [OF assms, of k]
    unfolding sh2_def n_def by simp
qed

lemma heap_Pop_props:
  assumes "heap_Pop k sh = Inr (x, sh')"
  shows "snd sh \<noteq> []" "x = snd sh ! 0" "mset (snd sh) = add_mset x (mset (snd sh'))"
    "length (snd sh) = Suc (length (snd sh'))"
    "\<And>p. logical (fst sh' p) = logical (fst sh p)"
    "\<And>p. p \<notin> set (snd sh) \<Longrightarrow> fst sh' p = fst sh p"
    "idx_ok sh \<Longrightarrow> idx_ok sh' \<and> Index (fst sh' x) = - 1"
proof -
  show ne: "snd sh \<noteq> []" using assms by (auto simp add: heap_Pop_def Len_def split: if_splits)
  define n where "n = length (snd sh) - 1"
  define sh2 where "sh2 = down k (Swap sh 0 n) 0 n"
  have n: "n < length (snd sh)" and z: "0 < length (snd sh)" using ne by (simp_all add: n_def)
  have pop: "Pop sh2 = Inr (x, sh')"
    using assms heap_Pop_unfold [OF ne, of k] unfolding sh2_def n_def by simp
  have ne2: "snd sh2 \<noteq> []" using n by (auto simp add: sh2_def simp flip: length_greater_0_conv)
  have x: "x = last (snd sh2)"
    and sh': "sh' = ((fst sh2)(x := (fst sh2 x)\<lparr>Index := - 1\<rparr>), butlast (snd sh2))"
    using pop Pop_Inr [OF ne2] by auto
  show "x = snd sh ! 0" using heap_Pop_Inr [OF ne, of k] assms by auto
  have m1: "mset (snd (Swap sh 0 n)) = mset (snd sh)" by (rule Swap_mset [OF z n])
  have m2: "mset (snd sh2) = mset (snd sh)" using n m1 by (simp add: sh2_def)
  have "snd sh2 = butlast (snd sh2) @ [last (snd sh2)]" using ne2 by simp
  then have "mset (snd sh2) = add_mset x (mset (snd sh'))"
    unfolding x sh' by (metis mset.simps(2) mset_append snd_conv union_mset_add_mset_right add.right_neutral mset.simps(1))
  then show "mset (snd sh) = add_mset x (mset (snd sh'))" using m2 by simp
  show "length (snd sh) = Suc (length (snd sh'))" using ne by (simp add: sh' sh2_def)
  show "logical (fst sh' p) = logical (fst sh p)" for p by (simp add: sh' sh2_def)
  show "fst sh' p = fst sh p" if "p \<notin> set (snd sh)" for p
  proof -
    have "p \<notin> set (snd sh2)" using that m2 by (metis set_mset_mset)
    then have "p \<noteq> x" using x ne2 by auto
    moreover have "fst sh2 p = fst sh p"
      using that n z m1 [THEN mset_eq_setD] by (simp add: sh2_def down_frame Swap_frame)
    ultimately show ?thesis by (simp add: sh')
  qed
  show "idx_ok sh' \<and> Index (fst sh' x) = - 1" if "idx_ok sh"
  proof -
    have "idx_ok sh2" using that n z by (simp add: sh2_def down_idx_ok Swap_idx_ok)
    then show ?thesis using Pop_idx_ok [OF _ pop] by blast
  qed
qed

section \<open>Ingestion\<close>

lemma addOrderInternal_buy:
  "Type (memory me x) = ''BUY'' \<Longrightarrow>
   addOrderInternal me x =
     me\<lparr>memory := fst (heap_Push BuyHeap (memory me, BuyOrders me) x),
        BuyOrders := snd (heap_Push BuyHeap (memory me, BuyOrders me) x)\<rparr>"
  by (simp add: addOrderInternal_def Buy_def split: prod.splits)

lemma addOrderInternal_sell:
  "Type (memory me x) \<noteq> ''BUY'' \<Longrightarrow>
   addOrderInternal me x =
     me\<lparr>memory := fst (heap_Push SellHeap (memory me, SellOrders me) x),
        SellOrders := snd (heap_Push SellHeap (memory me, SellOrders me) x)\<rparr>"
  by (simp add: addOrderInternal_def Buy_def split: prod.splits)

text \<open>
  C10. \<^verbatim>\<open>addOrderInternal\<close> tests \<^verbatim>\<open>order.Type == Buy\<close> and nothing else: an order whose
  \<^verbatim>\<open>Type\<close> is any string other than \<^verbatim>\<open>"BUY"\<close> (\<^verbatim>\<open>"SELL"\<close>, the empty string, a misspelling)
  is pushed onto the sell book, and the buy book is left as it was.
\<close>

theorem addOrderInternal_not_buy_goes_to_sell:
  assumes "Type (memory me order) \<noteq> ''BUY''"
  shows "order \<in> set (SellOrders (addOrderInternal me order)) \<and>
         mset (SellOrders (addOrderInternal me order)) = add_mset order (mset (SellOrders me)) \<and>
         BuyOrders (addOrderInternal me order) = BuyOrders me"
  using assms by (simp add: addOrderInternal_sell)

theorem addOrderInternal_not_buy_goes_to_sell_witness:
  "Type (memory (snd (new_Order NewMatchingEngine (order_of 7 '''' 101 5))) 0) \<noteq> ''BUY'' \<and>
   0 \<in> set (SellOrders (addOrderInternal (snd (new_Order NewMatchingEngine (order_of 7 '''' 101 5))) 0)) \<and>
   BuyOrders (addOrderInternal (snd (new_Order NewMatchingEngine (order_of 7 '''' 101 5))) 0) = []"
proof -
  let ?me = "snd (new_Order NewMatchingEngine (order_of 7 '''' 101 5))"
  have h: "Type (memory ?me 0) \<noteq> ''BUY''"
    by (simp add: new_Order_def NewMatchingEngine_def order_of_def)
  have b: "BuyOrders ?me = []"
    by (simp add: new_Order_def NewMatchingEngine_def)
  show ?thesis using h b addOrderInternal_not_buy_goes_to_sell [OF h] by simp
qed

lemma par_less: "0 < m \<Longrightarrow> par m < m"
  unfolding par_def by arith

lemma par_eq_iff: "0 < m \<Longrightarrow> par m = i \<longleftrightarrow> m = 2 * i + 1 \<or> m = 2 * i + 2"
  unfolding par_def by arith

lemma above_refl [simp]: "above k x x"
  by (cases k) (simp_all add: above_def)

lemma above_trans: "above k x y \<Longrightarrow> above k y z \<Longrightarrow> above k x z"
  by (cases k) (simp_all add: above_def)

lemma above_total: "\<not> above k x y \<Longrightarrow> above k y x"
  by (cases k) (simp_all add: above_def)

lemma Less_above: "Less k sh i j \<longleftrightarrow> \<not> above k (key sh j) (key sh i)"
  by (cases k; cases sh) (auto simp add: above_def key_def)

subsection \<open>The heap order\<close>

lemma up_step_abs:
  fixes f :: "nat \<Rightarrow> real"
  assumes j: "0 < j" "j < N"
    and a: "\<And>m. m < N \<Longrightarrow> 0 < m \<Longrightarrow> m \<noteq> j \<Longrightarrow> above k (f (par m)) (f m)"
    and b: "\<And>m. m < N \<Longrightarrow> 0 < m \<Longrightarrow> par m = j \<Longrightarrow> above k (f (par j)) (f m)"
    and ji: "above k (f j) (f (par j))"
    and g: "\<And>m. g m = f (if m = j then par j else if m = par j then j else m)"
  shows "\<And>m. m < N \<Longrightarrow> 0 < m \<Longrightarrow> m \<noteq> par j \<Longrightarrow> above k (g (par m)) (g m)"
    and "\<And>m. m < N \<Longrightarrow> 0 < m \<Longrightarrow> par m = par j \<Longrightarrow> 0 < par j \<Longrightarrow> above k (g (par (par j))) (g m)"
proof -
  have pj: "par j < j" using j by (simp add: par_less)
  show "above k (g (par m)) (g m)" if m: "m < N" "0 < m" "m \<noteq> par j" for m
  proof (cases "m = j")
    case True
    then show ?thesis using ji pj by (simp add: g)
  next
    case mj: False
    have gm: "g m = f m" using mj m by (simp add: g)
    show ?thesis
    proof (cases "par m = par j")
      case True
      then have "g (par m) = f j" using pj by (simp add: g)
      moreover have "above k (f (par j)) (f m)" using a [OF m(1,2) mj] True by simp
      ultimately show ?thesis using ji gm above_trans by metis
    next
      case False
      show ?thesis
      proof (cases "par m = j")
        case True
        then have "g (par m) = f (par j)" by (simp add: g)
        then show ?thesis using b [OF m(1,2) True] gm by simp
      next
        case pmj: False
        then have "g (par m) = f (par m)" using False by (simp add: g)
        then show ?thesis using a [OF m(1,2) mj] gm by simp
      qed
    qed
  qed
  show "above k (g (par (par j))) (g m)" if m: "m < N" "0 < m" "par m = par j" "0 < par j" for m
  proof -
    have ppj: "par (par j) < par j" using m(4) by (simp add: par_less)
    have "par j < N" using pj j by simp
    then have top: "above k (f (par (par j))) (f (par j))" using a [of "par j"] m(4) pj by simp
    have gpp: "g (par (par j)) = f (par (par j))" using ppj pj by (simp add: g)
    show ?thesis
    proof (cases "m = j")
      case True
      then show ?thesis using top gpp by (simp add: g)
    next
      case False
      have "m \<noteq> par j" using m(2,3) par_less [OF m(2)] by simp
      then have "g m = f m" using False by (simp add: g)
      moreover have "above k (f (par j)) (f m)" using a [OF m(1,2) False] m(3) by simp
      ultimately show ?thesis using top gpp above_trans by metis
    qed
  qed
qed


lemma down_step_abs:
  fixes f :: "nat \<Rightarrow> real"
  assumes c: "0 < c" "c < n" "par c = i"
    and a: "\<And>m. m < n \<Longrightarrow> 0 < m \<Longrightarrow> par m \<noteq> i \<Longrightarrow> above k (f (par m)) (f m)"
    and b: "\<And>m. m < n \<Longrightarrow> 0 < m \<Longrightarrow> par m = i \<Longrightarrow> 0 < i \<Longrightarrow> above k (f (par i)) (f m)"
    and ci: "above k (f c) (f i)"
    and best: "\<And>m. m < n \<Longrightarrow> 0 < m \<Longrightarrow> par m = i \<Longrightarrow> above k (f c) (f m)"
    and g: "\<And>m. g m = f (if m = i then c else if m = c then i else m)"
  shows "\<And>m. m < n \<Longrightarrow> 0 < m \<Longrightarrow> par m \<noteq> c \<Longrightarrow> above k (g (par m)) (g m)"
    and "\<And>m. m < n \<Longrightarrow> 0 < m \<Longrightarrow> par m = c \<Longrightarrow> above k (g (par c)) (g m)"
proof -
  have ic: "i < c" using c par_less by auto
  show "above k (g (par m)) (g m)" if m: "m < n" "0 < m" "par m \<noteq> c" for m
  proof (cases "par m = i")
    case True
    have gi: "g (par m) = f c" using True by (simp add: g)
    have mi: "m \<noteq> i" using True par_less [OF m(2)] by simp
    show ?thesis
    proof (cases "m = c")
      case True
      then show ?thesis using gi ci ic by (simp add: g)
    next
      case False
      then have "g m = f m" using mi by (simp add: g)
      then show ?thesis using gi best [OF m(1,2) True] by simp
    qed
  next
    case False
    have gp: "g (par m) = f (par m)" using False m(3) by (simp add: g)
    have mc: "m \<noteq> c" using False c by auto
    show ?thesis
    proof (cases "m = i")
      case True
      then have "g m = f c" by (simp add: g)
      moreover have "above k (f (par i)) (f c)" using b [OF c(2) c(1) c(3)] True m(2) by simp
      ultimately show ?thesis using gp True by simp
    next
      case mi: False
      then have "g m = f m" using mc by (simp add: g)
      then show ?thesis using gp a [OF m(1,2) False] by simp
    qed
  qed
  show "above k (g (par c)) (g m)" if m: "m < n" "0 < m" "par m = c" for m
  proof -
    have "c < m" using m par_less by auto
    then have "g m = f m" using ic by (simp add: g)
    moreover have "g (par c) = f c" using c by (simp add: g)
    moreover have "par m \<noteq> i" using m(3) ic by simp
    ultimately show ?thesis using a [OF m(1,2)] m(3) by simp
  qed
qed

lemma Swap_Price [simp]: "Price (fst (Swap sh i j) p) = Price (fst sh p)"
  using logical_fields [OF Swap_logical] by blast

lemma key_Swap:
  assumes "i < length (snd sh)" "j < length (snd sh)" "m < length (snd sh)"
  shows "key (Swap sh i j) m = key sh (if m = j then i else if m = i then j else m)"
  using assms by (cases sh) (simp add: key_def nth_list_update)


lemma heap_upto_above:
  "heap_upto k sh n \<longleftrightarrow> (\<forall>m<n. 0 < m \<longrightarrow> above k (key sh (par m)) (key sh m))"
  by (simp add: heap_upto_def Less_above par_def)


lemma up_heap_ord:
  assumes "up_inv k sh j"
  shows "heap_ord k (up k sh j)"
proof (rule up_rule [where P = "up_inv k"])
  show "up_inv k sh j" by (rule assms)
next
  fix sh j
  assume inv: "up_inv k sh j" and ne: "(j - 1) div 2 \<noteq> j" and ls: "Less k sh j ((j - 1) div 2)"
  let ?N = "length (snd sh)"
  have j0: "0 < j" using ne by arith
  have jN: "j < ?N" using inv by (simp add: up_inv_def)
  note j = j0 jN
  have pj: "par j < ?N" using j par_less [of j] by simp
  have "\<not> above k (key sh (par j)) (key sh j)"
    using ls by (simp add: Less_above par_def)
  then have ji: "above k (key sh j) (key sh (par j))"
    by (rule above_total)
  have g: "key (Swap sh (par j) j) m = key sh (if m = j then par j else if m = par j then j else m)"
    if "m < ?N" for m using key_Swap [OF pj j(2) that] .
  have a: "above k (key sh (par m)) (key sh m)" if "m < ?N" "0 < m" "m \<noteq> j" for m
    using inv that by (simp add: up_inv_def)
  have b: "above k (key sh (par j)) (key sh m)" if "m < ?N" "0 < m" "par m = j" for m
    using inv that j by (simp add: up_inv_def)
  define g' where "g' m = key sh (if m = j then par j else if m = par j then j else m)" for m
  have r1: "above k (g' (par m)) (g' m)" if "m < ?N" "0 < m" "m \<noteq> par j" for m
    by (rule up_step_abs(1) [where f = "key sh" and j = j and N = ?N and g = g', OF j0 jN a b ji g'_def that])
  have r2: "above k (g' (par (par j))) (g' m)" if "m < ?N" "0 < m" "par m = par j" "0 < par j" for m
    by (rule up_step_abs(2) [where f = "key sh" and j = j and N = ?N and g = g', OF j0 jN a b ji g'_def that])
  have gg: "key (Swap sh (par j) j) m = g' m" if "m < ?N" for m
    using g [OF that] by (simp add: g'_def)
  have pm: "par m < ?N" if "m < ?N" for m using that unfolding par_def by arith
  have "up_inv k (Swap sh (par j) j) (par j)"
    unfolding up_inv_def
  proof (intro conjI allI impI)
    show "par j < length (snd (Swap sh (par j) j))" using pj by simp
  next
    fix m assume "m < length (snd (Swap sh (par j) j))" "0 < m \<and> m \<noteq> par j"
    then have m: "m < ?N" "0 < m" "m \<noteq> par j" by simp_all
    show "above k (key (Swap sh (par j) j) (par m)) (key (Swap sh (par j) j) m)"
      using r1 [OF m] gg [OF m(1)] gg [OF pm [OF m(1)]] by simp
  next
    fix m assume "m < length (snd (Swap sh (par j) j))" "0 < m \<and> par m = par j \<and> 0 < par j"
    then have m: "m < ?N" "0 < m" "par m = par j" "0 < par j" by simp_all
    show "above k (key (Swap sh (par j) j) (par (par j))) (key (Swap sh (par j) j) m)"
      using r2 [OF m] gg [OF m(1)] gg [OF pm [OF pj]] by simp
  qed
  then show "up_inv k (Swap sh ((j - 1) div 2) j) ((j - 1) div 2)"
    by (simp add: par_def)
next
  fix sh j
  assume inv: "up_inv k sh j" and st: "(j - 1) div 2 = j \<or> \<not> Less k sh j ((j - 1) div 2)"
  have "above k (key sh (par m)) (key sh m)" if "m < length (snd sh)" "0 < m" for m
  proof (cases "m = j")
    case True
    then have "(j - 1) div 2 \<noteq> j" using that(2) by arith
    then show ?thesis using st True by (simp add: Less_above par_def)
  next
    case False
    then show ?thesis using inv that by (simp add: up_inv_def)
  qed
  then show "heap_ord k sh" by (simp add: heap_ord_def heap_upto_above)
qed


lemma child_best:
  assumes "\<not> n \<le> 2 * i + 1" "m < n" "0 < m" "par m = i"
  shows "above k (key sh (child k sh i n)) (key sh m)"
proof -
  have m: "m = 2 * i + 1 \<or> m = 2 * i + 2" using assms(3,4) by (simp add: par_eq_iff)
  show ?thesis
  proof (cases "2 * i + 1 + 1 < n \<and> Less k sh (2 * i + 1 + 1) (2 * i + 1)")
    case True
    then have c: "child k sh i n = 2 * i + 2" by (simp add: child_def)
    have "\<not> above k (key sh (2 * i + 1)) (key sh (2 * i + 2))" using True by (simp add: Less_above)
    then have "above k (key sh (2 * i + 2)) (key sh (2 * i + 1))" by (rule above_total)
    then show ?thesis using m c by auto
  next
    case False
    then have c: "child k sh i n = 2 * i + 1" by (simp add: child_def)
    have "above k (key sh (2 * i + 1)) (key sh (2 * i + 2))" if "m = 2 * i + 2"
      using False that assms(2) by (simp add: Less_above)
    then show ?thesis using m c by auto
  qed
qed

lemma down_heap_upto:
  assumes "down_inv k sh i n"
  shows "heap_upto k (down k sh i n) n"
proof (rule down_rule [where P = "\<lambda>sh i. down_inv k sh i n"])
  show "down_inv k sh i n" by (rule assms)
next
  fix sh i
  assume inv: "down_inv k sh i n" and ch: "\<not> n \<le> 2 * i + 1" and ls: "Less k sh (child k sh i n) i"
  define c where "c = child k sh i n"
  have cn: "c < n" using child_less [OF ch] by (simp add: c_def)
  have c0: "0 < c" using child_gt [of i k sh n] by (simp add: c_def)
  have pc: "par c = i" using child_cases [of k sh i n] c0 by (auto simp add: c_def par_eq_iff)
  have ic: "i < c" using child_gt [of i k sh n] by (simp add: c_def)
  have nN: "n \<le> length (snd sh)" using inv by (simp add: down_inv_def)
  have "\<not> above k (key sh i) (key sh c)" using ls by (simp add: Less_above c_def)
  then have ci: "above k (key sh c) (key sh i)" by (rule above_total)
  have a: "above k (key sh (par m)) (key sh m)" if "m < n" "0 < m" "par m \<noteq> i" for m
    using inv that by (simp add: down_inv_def)
  have b: "above k (key sh (par i)) (key sh m)" if "m < n" "0 < m" "par m = i" "0 < i" for m
    using inv that by (simp add: down_inv_def)
  have best: "above k (key sh c) (key sh m)" if "m < n" "0 < m" "par m = i" for m
    unfolding c_def by (rule child_best [OF ch that])
  define g' where "g' m = key sh (if m = i then c else if m = c then i else m)" for m
  have r1: "above k (g' (par m)) (g' m)" if "m < n" "0 < m" "par m \<noteq> c" for m
    by (rule down_step_abs(1) [where f = "key sh" and c = c and n = n and i = i and g = g',
          OF c0 cn pc a b ci best g'_def that])
  have r2: "above k (g' (par c)) (g' m)" if "m < n" "0 < m" "par m = c" for m
    by (rule down_step_abs(2) [where f = "key sh" and c = c and n = n and i = i and g = g',
          OF c0 cn pc a b ci best g'_def that])
  have gg: "key (Swap sh i c) m = g' m" if "m < n" for m
  proof -
    have "i < length (snd sh)" "c < length (snd sh)" "m < length (snd sh)"
      using ic cn nN that by simp_all
    then show ?thesis using ic by (simp add: key_Swap g'_def)
  qed
  have pm: "par m < n" if "m < n" for m using that unfolding par_def by arith
  have "down_inv k (Swap sh i c) c n"
    unfolding down_inv_def
  proof (intro conjI allI impI)
    show "n \<le> length (snd (Swap sh i c))" using nN by simp
  next
    fix m assume "m < n" "0 < m \<and> par m \<noteq> c"
    then have m: "m < n" "0 < m" "par m \<noteq> c" by simp_all
    show "above k (key (Swap sh i c) (par m)) (key (Swap sh i c) m)"
      using r1 [OF m] gg [OF m(1)] gg [OF pm [OF m(1)]] by simp
  next
    fix m assume "m < n" "0 < m \<and> par m = c \<and> 0 < c"
    then have m: "m < n" "0 < m" "par m = c" by simp_all
    show "above k (key (Swap sh i c) (par c)) (key (Swap sh i c) m)"
      using r2 [OF m] gg [OF m(1)] gg [OF pm [OF cn]] by simp
  qed
  then show "down_inv k (Swap sh i (child k sh i n)) (child k sh i n) n"
    by (simp add: c_def)
next
  fix sh i
  assume inv: "down_inv k sh i n"
    and st: "n \<le> 2 * i + 1 \<or> \<not> Less k sh (child k sh i n) i"
  have "above k (key sh (par m)) (key sh m)" if m: "m < n" "0 < m" for m
  proof (cases "par m = i")
    case False
    then show ?thesis using inv m by (simp add: down_inv_def)
  next
    case True
    then have "m = 2 * i + 1 \<or> m = 2 * i + 2" using m(2) by (simp add: par_eq_iff)
    then have ch: "\<not> n \<le> 2 * i + 1" using m(1) by auto
    then have "above k (key sh i) (key sh (child k sh i n))" using st by (simp add: Less_above)
    moreover have "above k (key sh (child k sh i n)) (key sh m)" by (rule child_best [OF ch m True])
    ultimately show ?thesis using True above_trans by metis
  qed
  then show "heap_upto k sh n" by (simp add: heap_upto_above)
qed

lemma heap_ord_root:
  assumes "heap_ord k sh" "m < length (snd sh)"
  shows "above k (key sh 0) (key sh m)"
  using assms(2)
proof (induction m rule: less_induct)
  case (less m)
  show ?case
  proof (cases "m = 0")
    case True
    then show ?thesis by simp
  next
    case False
    then have pm: "par m < m" by (simp add: par_less)
    then have "above k (key sh 0) (key sh (par m))" using less by simp
    moreover have "above k (key sh (par m)) (key sh m)"
      using assms(1) less(2) False by (simp add: heap_ord_def heap_upto_above)
    ultimately show ?thesis by (rule above_trans)
  qed
qed


lemma logical_Price: "logical v = logical v' \<Longrightarrow> Price v = Price v'"
  using logical_fields by blast

lemma key_cong:
  "snd sh' ! m = snd sh ! m \<Longrightarrow> logical (fst sh' (snd sh ! m)) = logical (fst sh (snd sh ! m)) \<Longrightarrow>
   key sh' m = key sh m"
  unfolding key_def by (simp, erule logical_Price)

lemma heap_upto_cong:
  assumes "\<And>m. m < n \<Longrightarrow> key sh' m = key sh m"
  shows "heap_upto k sh' n = heap_upto k sh n"
proof -
  have "par m < n" if "m < n" for m using that unfolding par_def by arith
  then show ?thesis using assms by (simp add: heap_upto_above)
qed

lemma heap_ord_logical:
  assumes "\<And>p. logical (s' p) = logical (s p)"
  shows "heap_ord k (s', h) = heap_ord k (s, h)"
proof -
  have "key (s', h) m = key (s, h) m" for m
    unfolding key_def using logical_Price [OF assms] by simp
  then have "heap_upto k (s', h) (length h) = heap_upto k (s, h) (length h)"
    by (intro heap_upto_cong)
  then show ?thesis by (simp add: heap_ord_def)
qed

lemma heap_Push_heap_ord:
  assumes "heap_ord k sh"
  shows "heap_ord k (heap_Push k sh x)"
proof -
  let ?N = "length (snd sh)"
  have k: "key (Push sh x) m = key sh m" if "m < ?N" for m
    using that by (intro key_cong) (simp_all add: nth_append)
  have pm: "par m < ?N" if "m < ?N" for m using that unfolding par_def by arith
  have "up_inv k (Push sh x) ?N"
    unfolding up_inv_def
  proof (intro conjI allI impI)
    show "?N < length (snd (Push sh x))" by simp
  next
    fix m assume "m < length (snd (Push sh x))" "0 < m \<and> m \<noteq> ?N"
    then have m: "m < ?N" "0 < m" by simp_all
    then have "above k (key sh (par m)) (key sh m)"
      using assms by (simp add: heap_ord_def heap_upto_above)
    then show "above k (key (Push sh x) (par m)) (key (Push sh x) m)"
      using k [OF m(1)] k [OF pm [OF m(1)]] by simp
  next
    fix m assume "m < length (snd (Push sh x))" "0 < m \<and> par m = ?N \<and> 0 < ?N"
    then have "m \<le> ?N" "0 < m" "par m = ?N" by simp_all
    then have False using par_less [of m] by simp
    then show "above k (key (Push sh x) (par ?N)) (key (Push sh x) m)" ..
  qed
  then have "heap_ord k (up k (Push sh x) ?N)" by (rule up_heap_ord)
  then show ?thesis by (simp add: heap_Push_def Let_def Len_def)
qed

lemma heap_Pop_heap_ord:
  assumes "heap_ord k sh" "heap_Pop k sh = Inr (x, sh')"
  shows "heap_ord k sh'"
proof -
  have ne: "snd sh \<noteq> []" using heap_Pop_props(1) [OF assms(2)] .
  define n where "n = length (snd sh) - 1"
  define sh1 where "sh1 = Swap sh 0 n"
  define sh2 where "sh2 = down k sh1 0 n"
  have n: "n < length (snd sh)" and z: "0 < length (snd sh)" using ne by (simp_all add: n_def)
  have pop: "Pop sh2 = Inr (x, sh')"
    using assms(2) heap_Pop_unfold [OF ne, of k] unfolding sh2_def sh1_def n_def by simp
  have ne2: "snd sh2 \<noteq> []" using n by (auto simp add: sh2_def sh1_def simp flip: length_greater_0_conv)
  have sh': "sh' = ((fst sh2)(x := (fst sh2 x)\<lparr>Index := - 1\<rparr>), butlast (snd sh2))"
    using pop Pop_Inr [OF ne2] by auto
  have k1: "key sh1 m = key sh m" if "m < n" "0 < m" for m
    using that n z by (simp add: sh1_def key_Swap)
  have pm: "par m < m" if "0 < m" for m using that by (simp add: par_less)
  have "down_inv k sh1 0 n"
    unfolding down_inv_def
  proof (intro conjI allI impI)
    show "n \<le> length (snd sh1)" using n by (simp add: sh1_def)
  next
    fix m assume "m < n" "0 < m \<and> par m \<noteq> 0"
    then have m: "m < n" "0 < m" "0 < par m" by simp_all
    have "above k (key sh (par m)) (key sh m)"
      using assms(1) m n by (simp add: heap_ord_def heap_upto_above)
    moreover have "par m < n" using pm [OF m(2)] m(1) by simp
    ultimately show "above k (key sh1 (par m)) (key sh1 m)"
      using k1 [OF m(1,2)] k1 [of "par m"] m(3) by simp
  next
    fix m assume "0 < m \<and> par m = 0 \<and> (0::nat) < 0"
    then show "above k (key sh1 (par 0)) (key sh1 m)" by simp
  qed
  then have h2: "heap_upto k sh2 n" unfolding sh2_def by (rule down_heap_upto)
  have len: "length (snd sh') = n" by (simp add: sh' sh2_def sh1_def n_def)
  have "key sh' m = key sh2 m" if "m < n" for m
    using that len unfolding sh' key_def by (simp add: nth_butlast)
  then have "heap_upto k sh' n = heap_upto k sh2 n" by (rule heap_upto_cong)
  then show ?thesis using h2 len by (simp add: heap_ord_def)
qed

section \<open>One pass of the matching loop\<close>

lemma iter_no_buys:
  "BuyOrders (eng w) = [] \<Longrightarrow>
   MatchOrders_iter w = Inr (w\<lparr>iterationCount := iterationCount w + 1\<rparr>, False)"
  by (simp add: MatchOrders_iter_def Len_def Let_def)

lemma iter_no_sells:
  assumes "heap_Pop BuyHeap (memory (eng w), BuyOrders (eng w)) = Inr (b, (s1, buys1))"
    and "SellOrders (eng w) = []"
    and "heap_Push BuyHeap (s1, buys1) b = (s2, buys2)"
  shows "MatchOrders_iter w =
     Inr (w\<lparr>iterationCount := iterationCount w + 1,
            eng := (eng w)\<lparr>memory := s2, BuyOrders := buys2\<rparr>\<rparr>, False)"
proof -
  have "BuyOrders (eng w) \<noteq> []" using heap_Pop_props(1) [OF assms(1)] by simp
  then show ?thesis using assms by (simp add: MatchOrders_iter_def Len_def Let_def)
qed

lemma iter_no_cross:
  assumes "heap_Pop BuyHeap (memory (eng w), BuyOrders (eng w)) = Inr (b, (s1, buys1))"
    and "heap_Pop SellHeap (s1, SellOrders (eng w)) = Inr (a, (s2, sells1))"
    and "Price (s2 b) < Price (s2 a)"
    and "heap_Push BuyHeap (s2, buys1) b = (s3, buys2)"
    and "heap_Push SellHeap (s3, sells1) a = (s4, sells2)"
  shows "MatchOrders_iter w =
     Inr (w\<lparr>iterationCount := iterationCount w + 1,
            eng := (eng w)\<lparr>memory := s4, BuyOrders := buys2, SellOrders := sells2\<rparr>\<rparr>, False)"
proof -
  have "BuyOrders (eng w) \<noteq> []" using heap_Pop_props(1) [OF assms(1)] by simp
  moreover have "SellOrders (eng w) \<noteq> []" using heap_Pop_props(1) [OF assms(2)] by simp
  ultimately show ?thesis using assms by (simp add: MatchOrders_iter_def Len_def Let_def)
qed

lemma iter_cross:
  assumes "heap_Pop BuyHeap (memory (eng w), BuyOrders (eng w)) = Inr (b, (s1, buys1))"
    and "heap_Pop SellHeap (s1, SellOrders (eng w)) = Inr (a, (s2, sells1))"
    and "Price (s2 b) \<ge> Price (s2 a)"
    and "t = min_go (Amount (s2 b)) (Amount (s2 a))"
    and "s3 = s2(b := (s2 b)\<lparr>Amount := Amount (s2 b) - t\<rparr>)"
    and "s4 = s3(a := (s3 a)\<lparr>Amount := Amount (s3 a) - t\<rparr>)"
    and "(if 0 <s Amount (s4 b) then heap_Push BuyHeap (s4, buys1) b else (s4, buys1)) = (s5, buys2)"
    and "(if 0 <s Amount (s5 a) then heap_Push SellHeap (s5, sells1) a else (s5, sells1)) = (s6, sells2)"
  shows "MatchOrders_iter w =
     Inr (w\<lparr>iterationCount := iterationCount w + 1,
            eng := (eng w)\<lparr>memory := s6, BuyOrders := buys2, SellOrders := sells2\<rparr>,
            matchesFound := matchesFound w + 1,
            matches := matches w @ [\<lparr>buy_order = b, sell_order = a, buy_price = Price (s2 b),
                                     sell_price = Price (s2 a), quantity = t\<rparr>]\<rparr>,
          buys2 \<noteq> [] \<and> sells2 \<noteq> [])"
proof -
  have "BuyOrders (eng w) \<noteq> []" using heap_Pop_props(1) [OF assms(1)] by simp
  moreover have "SellOrders (eng w) \<noteq> []" using heap_Pop_props(1) [OF assms(2)] by simp
  ultimately show ?thesis
    using assms(1-3) assms(7,8) [unfolded assms(4-6)] unfolding assms(4-6)
    by (simp add: MatchOrders_iter_def Len_def Let_def del: fun_upd_apply)
qed


lemma two_ok_sym: "two_ok s k h k' h' = two_ok s k' h' k h"
  by (auto simp add: two_ok_def)

lemma idx_ok_frame:
  assumes "\<And>p. p \<in> set h \<Longrightarrow> Index (s' p) = Index (s p)" "idx_ok (s, h)"
  shows "idx_ok (s', h)"
  using assms by (simp add: idx_ok_def)

lemma heap_ord_Price:
  assumes "\<And>p. Price (s' p) = Price (s p)"
  shows "heap_ord k (s', h) = heap_ord k (s, h)"
proof -
  have "key (s', h) m = key (s, h) m" for m
    unfolding key_def using assms by simp
  then have "heap_upto k (s', h) (length h) = heap_upto k (s, h) (length h)"
    by (intro heap_upto_cong)
  then show ?thesis by (simp add: heap_ord_def)
qed

lemma two_ok_upd:
  assumes "two_ok s k h k' h'"
    and "\<And>p. Price (s' p) = Price (s p)" "\<And>p. Index (s' p) = Index (s p)"
  shows "two_ok s' k h k' h'"
  using assms(1) idx_ok_frame [of _ s' s] heap_ord_Price [of s' s] assms(2,3)
  by (simp add: two_ok_def)

lemma two_ok_Pop:
  assumes "two_ok s k h k' h'" "heap_Pop k (s, h) = Inr (x, (s1, h1))"
  shows "two_ok s1 k h1 k' h'" "x \<notin> set h1" "x \<notin> set h'"
proof -
  note pr = heap_Pop_props [OF assms(2), simplified]
  have ok: "idx_ok (s, h)" "idx_ok (s, h')" "set h \<inter> set h' = {}"
    "heap_ord k (s, h)" "heap_ord k' (s, h')"
    using assms(1) by (simp_all add: two_ok_def)
  have sub: "set h = insert x (set h1)" using pr(3) by (metis set_mset_add_mset_insert set_mset_mset)
  have "distinct h" using ok(1) by (simp add: idx_ok_def)
  then have "count (mset h) x \<le> 1" by (simp add: distinct_count_atmost_1)
  then have "count (mset h1) x = 0" unfolding pr(3) by simp
  then show x1: "x \<notin> set h1" by (simp add: count_eq_zero_iff)
  show x2: "x \<notin> set h'" using sub ok(3) by auto
  have "idx_ok (s1, h1)" using pr(7) ok(1) by simp
  moreover have "idx_ok (s1, h')"
  proof (rule idx_ok_frame [OF _ ok(2)])
    fix p assume "p \<in> set h'"
    then have "p \<notin> set h" using ok(3) by auto
    then show "Index (s1 p) = Index (s p)" using pr(6) by simp
  qed
  moreover have "heap_ord k (s1, h1)" using heap_Pop_heap_ord [OF ok(4) assms(2)] .
  moreover have "heap_ord k' (s1, h')"
    using ok(5) heap_ord_logical [of s1 s k' h'] pr(5) by simp
  moreover have "set h1 \<inter> set h' = {}" using sub ok(3) by auto
  ultimately show "two_ok s1 k h1 k' h'" by (simp add: two_ok_def)
qed

lemma two_ok_Push:
  assumes "two_ok s k h k' h'" "x \<notin> set h" "x \<notin> set h'" "heap_Push k (s, h) x = (s1, h1)"
  shows "two_ok s1 k h1 k' h'"
proof -
  have ok: "idx_ok (s, h)" "idx_ok (s, h')" "set h \<inter> set h' = {}"
    "heap_ord k (s, h)" "heap_ord k' (s, h')"
    using assms(1) by (simp_all add: two_ok_def)
  have s1: "s1 = fst (heap_Push k (s, h) x)" and h1: "h1 = snd (heap_Push k (s, h) x)"
    using assms(4) by simp_all
  have "idx_ok (s1, h1)" using heap_Push_idx_ok [of "(s, h)" x k] ok(1) assms(2,4) by simp
  moreover have "idx_ok (s1, h')"
  proof (rule idx_ok_frame [OF _ ok(2)])
    fix p assume "p \<in> set h'"
    then have "p \<notin> set h" "p \<noteq> x" using ok(3) assms(3) by auto
    then show "Index (s1 p) = Index (s p)" using heap_Push_frame [of p "(s, h)" x k] by (simp add: s1)
  qed
  moreover have "heap_ord k (s1, h1)" using heap_Push_heap_ord [OF ok(4), of x] assms(4) by simp
  moreover have "heap_ord k' (s1, h')"
    using ok(5) heap_ord_logical [of s1 s k' h'] heap_Push_logical [of k "(s, h)" x] by (simp add: s1)
  moreover have "set h1 \<inter> set h' = {}" using ok(3) assms(3) by (simp add: h1)
  ultimately show ?thesis by (simp add: two_ok_def)
qed


lemma heap_Pop_fields:
  assumes "heap_Pop k (s, h) = Inr (x, (s1, h1))"
  shows "ID (s1 p) = ID (s p)" "Type (s1 p) = Type (s p)" "Price (s1 p) = Price (s p)"
    "Amount (s1 p) = Amount (s p)"
  using logical_fields [OF heap_Pop_props(5) [OF assms, of p]] by simp_all

lemma heap_Push_fields:
  assumes "heap_Push k (s, h) x = (s1, h1)"
  shows "ID (s1 p) = ID (s p)" "Type (s1 p) = Type (s p)" "Price (s1 p) = Price (s p)"
    "Amount (s1 p) = Amount (s p)"
  using logical_fields [OF heap_Push_logical [of k "(s, h)" x p]] assms by simp_all

lemma heap_Push_pair:
  assumes "heap_Push k (s, h) x = (s1, h1)"
  shows "mset h1 = add_mset x (mset h)" "\<And>p. p \<notin> set h \<Longrightarrow> p \<noteq> x \<Longrightarrow> s1 p = s p"
    "set h1 = insert x (set h)"
  using heap_Push_mset [of k "(s, h)" x] heap_Push_frame [of _ "(s, h)" x k]
    heap_Push_set [of k "(s, h)" x] assms by simp_all

lemma iter_pass_no_buys:
  assumes "BuyOrders (eng w) = []"
  shows "\<exists>w' c. MatchOrders_iter w = Inr (w', c) \<and> pass w w' c \<and> (books_ok (eng w) \<longrightarrow> books_ok (eng w'))"
  using iter_no_buys [OF assms] assms by (auto simp add: pass_def)

lemma iter_pass_no_sells:
  assumes ne: "BuyOrders (eng w) \<noteq> []" and em: "SellOrders (eng w) = []"
  shows "\<exists>w' c. MatchOrders_iter w = Inr (w', c) \<and> pass w w' c \<and> (books_ok (eng w) \<longrightarrow> books_ok (eng w'))"
proof -
  define s where "s = memory (eng w)"
  define buys where "buys = BuyOrders (eng w)"
  define b where "b = buys ! 0"
  obtain s1 buys1 where pb: "heap_Pop BuyHeap (s, buys) = Inr (b, (s1, buys1))"
    using heap_Pop_Inr [of "(s, buys)" BuyHeap] ne by (auto simp add: b_def buys_def)
  obtain s2 buys2 where ub: "heap_Push BuyHeap (s1, buys1) b = (s2, buys2)"
    by (cases "heap_Push BuyHeap (s1, buys1) b")
  note p1 = heap_Pop_props [OF pb, simplified] and f1 = heap_Pop_fields [OF pb]
  note p2 = heap_Push_pair [OF ub] and f2 = heap_Push_fields [OF ub]
  define w' where "w' = w\<lparr>iterationCount := iterationCount w + 1,
            eng := (eng w)\<lparr>memory := s2, BuyOrders := buys2\<rparr>\<rparr>"
  have it: "MatchOrders_iter w = Inr (w', False)"
    unfolding w'_def by (rule iter_no_sells [OF pb [unfolded s_def buys_def] em ub])
  have m: "mset buys2 = mset buys" using p1(3) p2(1) by simp
  have sub: "set buys = insert b (set buys1)"
    using p1(3) by (metis set_mset_add_mset_insert set_mset_mset)
  have fr: "s2 p = s p" if "p \<notin> set buys" for p
    using that p1(6) [of p] p2(2) [of p] sub by auto
  have "pass w w' False"
    using m fr f1 f2 em by (simp add: pass_def w'_def Let_def flip: s_def buys_def)
  moreover have "books_ok (eng w')" if "books_ok (eng w)"
  proof -
    have "two_ok s BuyHeap buys SellHeap []" using that em by (simp add: books_ok_def s_def buys_def)
    note t1 = two_ok_Pop [OF this pb]
    have "two_ok s2 BuyHeap buys2 SellHeap []" using two_ok_Push [OF t1 ub] .
    then show ?thesis using em by (simp add: books_ok_def w'_def)
  qed
  ultimately show ?thesis using it by blast
qed


lemma iter_pass_both:
  assumes ne: "BuyOrders (eng w) \<noteq> []" and nes: "SellOrders (eng w) \<noteq> []"
    and disj: "set (BuyOrders (eng w)) \<inter> set (SellOrders (eng w)) = {}"
  shows "\<exists>w' c. MatchOrders_iter w = Inr (w', c) \<and> pass w w' c \<and> (books_ok (eng w) \<longrightarrow> books_ok (eng w'))"
proof -
  define s where "s = memory (eng w)"
  define buys where "buys = BuyOrders (eng w)"
  define sells where "sells = SellOrders (eng w)"
  define b where "b = buys ! 0"
  define a where "a = sells ! 0"
  obtain s1 buys1 where pb: "heap_Pop BuyHeap (s, buys) = Inr (b, (s1, buys1))"
    using heap_Pop_Inr [of "(s, buys)" BuyHeap] ne by (auto simp add: b_def buys_def)
  obtain s2 sells1 where ps: "heap_Pop SellHeap (s1, sells) = Inr (a, (s2, sells1))"
    using heap_Pop_Inr [of "(s1, sells)" SellHeap] nes by (auto simp add: a_def sells_def)
  note p1 = heap_Pop_props [OF pb, simplified] and f1 = heap_Pop_fields [OF pb]
  note p2 = heap_Pop_props [OF ps, simplified] and f2 = heap_Pop_fields [OF ps]
  have subb: "set buys = insert b (set buys1)"
    using p1(3) by (metis set_mset_add_mset_insert set_mset_mset)
  have subs: "set sells = insert a (set sells1)"
    using p2(3) by (metis set_mset_add_mset_insert set_mset_mset)
  have ab: "a \<noteq> b" and ab1: "a \<notin> set buys1" and ba1: "b \<notin> set sells1"
    using subb subs disj by (auto simp add: buys_def sells_def)
  have d1: "set buys1 \<inter> set sells1 = {}" using subb subs disj by (auto simp add: buys_def sells_def)
  have fr2: "s2 p = s p" if "p \<notin> set buys" "p \<notin> set sells" for p
    using that p1(6) [of p] p2(6) [of p] by simp
  have pr2: "Price (s2 p) = Price (s p)" and am2: "Amount (s2 p) = Amount (s p)" for p
    using f1 f2 by simp_all
  show ?thesis
  proof (cases "Price (s a) \<le> Price (s b)")
    case False
    then have nc: "Price (s2 b) < Price (s2 a)" by (simp add: pr2)
    obtain s3 buys2 where ub: "heap_Push BuyHeap (s2, buys1) b = (s3, buys2)"
      by (cases "heap_Push BuyHeap (s2, buys1) b")
    obtain s4 sells2 where us: "heap_Push SellHeap (s3, sells1) a = (s4, sells2)"
      by (cases "heap_Push SellHeap (s3, sells1) a")
    note p3 = heap_Push_pair [OF ub] and f3 = heap_Push_fields [OF ub]
    note p4 = heap_Push_pair [OF us] and f4 = heap_Push_fields [OF us]
    define w' where "w' = w\<lparr>iterationCount := iterationCount w + 1,
            eng := (eng w)\<lparr>memory := s4, BuyOrders := buys2, SellOrders := sells2\<rparr>\<rparr>"
    have it: "MatchOrders_iter w = Inr (w', False)"
      unfolding w'_def
      by (rule iter_no_cross [OF pb [unfolded s_def buys_def] ps [unfolded sells_def] nc ub us])
    have mb: "mset buys2 = mset buys" and ms: "mset sells2 = mset sells"
      using p1(3) p2(3) p3(1) p4(1) by simp_all
    have fr: "s4 p = s p" if "p \<notin> set buys" "p \<notin> set sells" for p
      using that fr2 [of p] p3(2) [of p] p4(2) [of p] subb subs by auto
    have "pass w w' False"
      using mb ms fr f1 f2 f3 f4 False
      by (simp add: pass_def w'_def Let_def flip: s_def buys_def sells_def a_def b_def)
    moreover have "books_ok (eng w')" if "books_ok (eng w)"
    proof -
      have "two_ok s BuyHeap buys SellHeap sells"
        using that by (simp add: books_ok_def s_def buys_def sells_def)
      note t1 = two_ok_Pop [OF this pb]
      note t2 = two_ok_Pop [OF t1(1) [unfolded two_ok_sym [of s1 BuyHeap]] ps]
      have "two_ok s3 BuyHeap buys2 SellHeap sells1"
        using two_ok_Push [OF t2(1) [unfolded two_ok_sym [of s2 SellHeap]] t1(2) ba1 ub] .
      then have "two_ok s3 SellHeap sells1 BuyHeap buys2" by (simp add: two_ok_sym)
      moreover have "a \<notin> set buys2" using p3(3) ab ab1 by simp
      ultimately have "two_ok s4 SellHeap sells2 BuyHeap buys2"
        using two_ok_Push [OF _ t2(2) _ us] by blast
      then show ?thesis by (simp add: books_ok_def w'_def two_ok_sym)
    qed
    ultimately show ?thesis using it by blast
  next
    case True
    then have cr: "Price (s2 b) \<ge> Price (s2 a)" by (simp add: pr2)
    define t where "t = min_go (Amount (s2 b)) (Amount (s2 a))"
    define s3 where "s3 = s2(b := (s2 b)\<lparr>Amount := Amount (s2 b) - t\<rparr>)"
    define s4 where "s4 = s3(a := (s3 a)\<lparr>Amount := Amount (s3 a) - t\<rparr>)"
    obtain s5 buys2 where ub:
      "(if 0 <s Amount (s4 b) then heap_Push BuyHeap (s4, buys1) b else (s4, buys1)) = (s5, buys2)"
      by (cases "if 0 <s Amount (s4 b) then heap_Push BuyHeap (s4, buys1) b else (s4, buys1)")
    obtain s6 sells2 where us:
      "(if 0 <s Amount (s5 a) then heap_Push SellHeap (s5, sells1) a else (s5, sells1)) = (s6, sells2)"
      by (cases "if 0 <s Amount (s5 a) then heap_Push SellHeap (s5, sells1) a else (s5, sells1)")
    define w' where "w' = w\<lparr>iterationCount := iterationCount w + 1,
            eng := (eng w)\<lparr>memory := s6, BuyOrders := buys2, SellOrders := sells2\<rparr>,
            matchesFound := matchesFound w + 1,
            matches := matches w @ [\<lparr>buy_order = b, sell_order = a, buy_price = Price (s2 b),
                                     sell_price = Price (s2 a), quantity = t\<rparr>]\<rparr>"
    have it: "MatchOrders_iter w = Inr (w', buys2 \<noteq> [] \<and> sells2 \<noteq> [])"
      unfolding w'_def
      by (rule iter_cross [OF pb [unfolded s_def buys_def] ps [unfolded sells_def] cr t_def s3_def s4_def ub us])
    have t: "t = min_go (Amount (s b)) (Amount (s a))" by (simp add: t_def am2)
    have a4: "Amount (s4 p) = (if p = b \<or> p = a then Amount (s p) - t else Amount (s p))"
      and i4: "Index (s4 p) = Index (s2 p)" and pr4: "Price (s4 p) = Price (s p)"
      and id4: "ID (s4 p) = ID (s p)" and ty4: "Type (s4 p) = Type (s p)" for p
      using ab f1 [of p] f2 [of p] by (auto simp add: s4_def s3_def am2)
    have fr4: "s4 p = s p" if "p \<notin> set buys" "p \<notin> set sells" for p
      using that fr2 [of p] subb subs by (auto simp add: s4_def s3_def)
    have b5: "mset buys2 = (if 0 <s Amount (s b) - t then mset buys else mset buys - {#b#})"
      and f5: "ID (s5 p) = ID (s4 p)" "Type (s5 p) = Type (s4 p)" "Price (s5 p) = Price (s4 p)"
        "Amount (s5 p) = Amount (s4 p)"
      and fr5: "p \<notin> set buys1 \<Longrightarrow> p \<noteq> b \<Longrightarrow> s5 p = s4 p" for p
    proof -
      show "mset buys2 = (if 0 <s Amount (s b) - t then mset buys else mset buys - {#b#})"
        using ub a4 [of b] p1(3) heap_Push_pair(1) [of BuyHeap s4 buys1 b s5 buys2]
        by (auto split: if_splits)
      show "ID (s5 p) = ID (s4 p)" "Type (s5 p) = Type (s4 p)" "Price (s5 p) = Price (s4 p)"
        "Amount (s5 p) = Amount (s4 p)"
        using ub heap_Push_fields [of BuyHeap s4 buys1 b s5 buys2 p] by (auto split: if_splits)
      show "p \<notin> set buys1 \<Longrightarrow> p \<noteq> b \<Longrightarrow> s5 p = s4 p"
        using ub heap_Push_pair(2) [of BuyHeap s4 buys1 b s5 buys2 p] by (auto split: if_splits)
    qed
    have a5a: "Amount (s5 a) = Amount (s a) - t" using f5(4) [of a] a4 [of a] by simp
    have b6: "mset sells2 = (if 0 <s Amount (s a) - t then mset sells else mset sells - {#a#})"
      and f6: "ID (s6 p) = ID (s5 p)" "Type (s6 p) = Type (s5 p)" "Price (s6 p) = Price (s5 p)"
        "Amount (s6 p) = Amount (s5 p)"
      and fr6: "p \<notin> set sells1 \<Longrightarrow> p \<noteq> a \<Longrightarrow> s6 p = s5 p" for p
    proof -
      show "mset sells2 = (if 0 <s Amount (s a) - t then mset sells else mset sells - {#a#})"
        using us a5a p2(3) heap_Push_pair(1) [of SellHeap s5 sells1 a s6 sells2]
        by (auto split: if_splits)
      show "ID (s6 p) = ID (s5 p)" "Type (s6 p) = Type (s5 p)" "Price (s6 p) = Price (s5 p)"
        "Amount (s6 p) = Amount (s5 p)"
        using us heap_Push_fields [of SellHeap s5 sells1 a s6 sells2 p] by (auto split: if_splits)
      show "p \<notin> set sells1 \<Longrightarrow> p \<noteq> a \<Longrightarrow> s6 p = s5 p"
        using us heap_Push_pair(2) [of SellHeap s5 sells1 a s6 sells2 p] by (auto split: if_splits)
    qed
    have fr: "s6 p = s p" if "p \<notin> set buys" "p \<notin> set sells" for p
      using that fr4 [of p] fr5 [of p] fr6 [of p] subb subs by auto
    have "pass w w' (buys2 \<noteq> [] \<and> sells2 \<noteq> [])"
      unfolding pass_def Let_def
      using True ne nes fr b5 b6
      by (simp add: w'_def f6 f5 a4 pr4 id4 ty4 pr2 flip: s_def buys_def sells_def a_def b_def t)
    moreover have "books_ok (eng w')" if "books_ok (eng w)"
    proof -
      have "two_ok s BuyHeap buys SellHeap sells"
        using that by (simp add: books_ok_def s_def buys_def sells_def)
      note t1 = two_ok_Pop [OF this pb]
      note t2 = two_ok_Pop [OF t1(1) [unfolded two_ok_sym [of s1 BuyHeap]] ps]
      have "two_ok s4 SellHeap sells1 BuyHeap buys1"
        by (rule two_ok_upd [OF t2(1)]) (simp_all add: pr4 pr2 i4)
      then have t4: "two_ok s4 BuyHeap buys1 SellHeap sells1" by (simp add: two_ok_sym)
      have t5: "two_ok s5 BuyHeap buys2 SellHeap sells1"
      proof (cases "0 <s Amount (s4 b)")
        case True
        then have "heap_Push BuyHeap (s4, buys1) b = (s5, buys2)" using ub by simp
        then show ?thesis using two_ok_Push [OF t4 t1(2) ba1] by blast
      next
        case False
        then show ?thesis using ub t4 by simp
      qed
      have "set buys2 \<subseteq> insert b (set buys1)"
        using ub heap_Push_pair(3) [of BuyHeap s4 buys1 b s5 buys2] by (auto split: if_splits)
      then have ab2: "a \<notin> set buys2" using ab ab1 by auto
      have "two_ok s6 SellHeap sells2 BuyHeap buys2"
      proof (cases "0 <s Amount (s5 a)")
        case True
        then have "heap_Push SellHeap (s5, sells1) a = (s6, sells2)" using us by simp
        then show ?thesis using two_ok_Push [OF t5 [unfolded two_ok_sym [of s5 BuyHeap]] t2(2) ab2] by blast
      next
        case False
        then show ?thesis using us t5 by (simp add: two_ok_sym)
      qed
      then show ?thesis by (simp add: books_ok_def w'_def two_ok_sym)
    qed
    ultimately show ?thesis using it by blast
  qed
qed

lemma iter_pass:
  assumes "no_shared (eng w)"
  shows "\<exists>w' c. MatchOrders_iter w = Inr (w', c) \<and> pass w w' c \<and>
           (books_ok (eng w) \<longrightarrow> books_ok (eng w'))"
proof (cases "BuyOrders (eng w) = []")
  case True
  then show ?thesis by (rule iter_pass_no_buys)
next
  case ne: False
  show ?thesis
  proof (cases "SellOrders (eng w) = []")
    case True
    then show ?thesis using ne by (intro iter_pass_no_sells)
  next
    case False
    then show ?thesis using ne assms by (intro iter_pass_both) (simp_all add: no_shared_def)
  qed
qed

lemma books_ok_no_shared: "books_ok me \<Longrightarrow> no_shared me"
  by (simp add: books_ok_def two_ok_def no_shared_def idx_ok_def)

lemma distinct_mset_subseteq:
  assumes "mset xs \<subseteq># mset ys" "distinct ys"
  shows "distinct xs"
proof -
  obtain zs where "mset ys - mset xs = mset zs" using ex_mset by metis
  then have "mset ys = mset (xs @ zs)"
    using assms(1) by (metis mset_append subset_mset.add_diff_inverse)
  then have "distinct (xs @ zs)" using assms(2) mset_eq_imp_distinct_iff by blast
  then show ?thesis by simp
qed

lemma pass_subset:
  assumes "pass w w' c"
  shows "set (BuyOrders (eng w')) \<subseteq> set (BuyOrders (eng w))"
    "set (SellOrders (eng w')) \<subseteq> set (SellOrders (eng w))"
proof -
  have "mset (BuyOrders (eng w')) \<subseteq># mset (BuyOrders (eng w))"
    using assms by (simp add: pass_def Let_def)
  then show "set (BuyOrders (eng w')) \<subseteq> set (BuyOrders (eng w))"
    by (metis set_mset_mono set_mset_mset)
  have "mset (SellOrders (eng w')) \<subseteq># mset (SellOrders (eng w))"
    using assms by (simp add: pass_def Let_def)
  then show "set (SellOrders (eng w')) \<subseteq> set (SellOrders (eng w))"
    by (metis set_mset_mono set_mset_mset)
qed

lemma pass_no_shared:
  assumes "pass w w' c" "no_shared (eng w)"
  shows "no_shared (eng w')"
proof -
  have "mset (BuyOrders (eng w')) \<subseteq># mset (BuyOrders (eng w))"
    "mset (SellOrders (eng w')) \<subseteq># mset (SellOrders (eng w))"
    using assms(1) by (simp_all add: pass_def Let_def)
  then have "distinct (BuyOrders (eng w'))" "distinct (SellOrders (eng w'))"
    using assms(2) distinct_mset_subseteq by (auto simp add: no_shared_def)
  then show ?thesis using pass_subset [OF assms(1)] assms(2) unfolding no_shared_def by auto
qed

lemma min_go_cases: "min_go x y = x \<or> min_go x y = y"
  by (simp add: min_go_def)

lemma pass_trade_decreases:
  assumes "pass w w' c" "matches w' \<noteq> matches w"
  shows "bsize w' < bsize w"
proof -
  define me where "me = eng w"
  define b where "b = BuyOrders me ! 0"
  define a where "a = SellOrders me ! 0"
  define t where "t = min_go (Amount (memory me b)) (Amount (memory me a))"
  have cr: "BuyOrders me \<noteq> [] \<and> SellOrders me \<noteq> [] \<and> Price (memory me a) \<le> Price (memory me b)"
    using assms by (auto simp add: pass_def Let_def me_def a_def b_def split: if_splits)
  have mb: "mset (BuyOrders (eng w')) =
      (if \<not> 0 <s Amount (memory me b) - t then mset (BuyOrders me) - {#b#} else mset (BuyOrders me))"
    and ms: "mset (SellOrders (eng w')) =
      (if \<not> 0 <s Amount (memory me a) - t then mset (SellOrders me) - {#a#} else mset (SellOrders me))"
    using assms(1) cr by (simp_all add: pass_def Let_def me_def b_def a_def t_def)
  have bin: "b \<in># mset (BuyOrders me)" and ain: "a \<in># mset (SellOrders me)"
    using cr by (simp_all add: b_def a_def)
  have lb: "length (BuyOrders (eng w')) =
      (if \<not> 0 <s Amount (memory me b) - t then length (BuyOrders me) - 1 else length (BuyOrders me))"
    using arg_cong [OF mb, of size] bin by (simp add: size_Diff_singleton)
  have ls: "length (SellOrders (eng w')) =
      (if \<not> 0 <s Amount (memory me a) - t then length (SellOrders me) - 1 else length (SellOrders me))"
    using arg_cong [OF ms, of size] ain by (simp add: size_Diff_singleton)
  have "\<not> 0 <s Amount (memory me b) - t \<or> \<not> 0 <s Amount (memory me a) - t"
    using min_go_cases [of "Amount (memory me b)" "Amount (memory me a)"] by (auto simp add: t_def)
  moreover obtain nb ns where "length (BuyOrders me) = Suc nb" "length (SellOrders me) = Suc ns"
    using cr by (cases "BuyOrders me"; cases "SellOrders me") simp_all
  ultimately show ?thesis using lb ls unfolding bsize_def me_def by (auto split: if_splits)
qed

lemma pass_decreases:
  assumes "pass w w' True"
  shows "bsize w' < bsize w"
proof (rule pass_trade_decreases [OF assms])
  show "matches w' \<noteq> matches w"
    using assms by (simp add: pass_def Let_def)
qed

section \<open>The whole sweep\<close>

lemma loop_rule:
  assumes init: "no_shared (eng w)" "I w"
    and continue: "\<And>w w'. no_shared (eng w) \<Longrightarrow> I w \<Longrightarrow> MatchOrders_iter w = Inr (w', True) \<Longrightarrow>
        pass w w' True \<Longrightarrow> (books_ok (eng w) \<longrightarrow> books_ok (eng w')) \<Longrightarrow> I w'"
    and final: "\<And>w w'. no_shared (eng w) \<Longrightarrow> I w \<Longrightarrow> MatchOrders_iter w = Inr (w', False) \<Longrightarrow>
        pass w w' False \<Longrightarrow> (books_ok (eng w) \<longrightarrow> books_ok (eng w')) \<Longrightarrow> Q w'"
  shows "\<exists>w'. MatchOrders_loop w = Some (Inr w') \<and> Q w'"
  using init
proof (induction "bsize w" arbitrary: w rule: less_induct)
  case less
  obtain w1 c where it: "MatchOrders_iter w = Inr (w1, c)" and ps: "pass w w1 c"
    and bk: "books_ok (eng w) \<longrightarrow> books_ok (eng w1)"
    using iter_pass [OF less(2)] by blast
  show ?case
  proof (cases c)
    case True
    then have ct: "c = True" by simp
    have "I w1" using continue [OF less(2,3) it [unfolded ct] ps [unfolded ct] bk] .
    moreover have "bsize w1 < bsize w" using pass_decreases ps True by simp
    moreover have "no_shared (eng w1)" using pass_no_shared [OF ps less(2)] .
    ultimately obtain w' where "MatchOrders_loop w1 = Some (Inr w')" "Q w'"
      using less(1) by blast
    moreover have "MatchOrders_loop w = MatchOrders_loop w1"
      using it True by (subst MatchOrders_loop.simps) simp
    ultimately show ?thesis by simp
  next
    case False
    then have cf: "c = False" by simp
    have "Q w1" using final [OF less(2,3) it [unfolded cf] ps [unfolded cf] bk] .
    moreover have "MatchOrders_loop w = Some (Inr w1)"
      using it False by (subst MatchOrders_loop.simps) simp
    ultimately show ?thesis by simp
  qed
qed

lemma loop_terminates:
  assumes "no_shared (eng w)"
  shows "\<exists>w'. MatchOrders_loop w = Some (Inr w') \<and>
           iterationCount w' \<le> iterationCount w + bsize w + 1 \<and>
           matchesFound w' + length (matches w) = length (matches w') + matchesFound w"
proof (rule loop_rule [where I = "\<lambda>v. iterationCount v + bsize v \<le> iterationCount w + bsize w \<and>
      matchesFound v + length (matches w) = length (matches v) + matchesFound w"])
  show "no_shared (eng w)" by (rule assms)
  show "iterationCount w + bsize w \<le> iterationCount w + bsize w \<and>
      matchesFound w + length (matches w) = length (matches w) + matchesFound w" by simp
next
  fix v v'
  assume i: "iterationCount v + bsize v \<le> iterationCount w + bsize w \<and>
      matchesFound v + length (matches w) = length (matches v) + matchesFound w"
    and p: "pass v v' True"
  have "bsize v' < bsize v" using pass_decreases [OF p] .
  moreover have "iterationCount v' = iterationCount v + 1"
    "matchesFound v' = matchesFound v + 1" "length (matches v') = length (matches v) + 1"
    using p by (simp_all add: pass_def Let_def)
  ultimately show "iterationCount v' + bsize v' \<le> iterationCount w + bsize w \<and>
      matchesFound v' + length (matches w) = length (matches v') + matchesFound w"
    using i by auto
next
  fix v v'
  assume i: "iterationCount v + bsize v \<le> iterationCount w + bsize w \<and>
      matchesFound v + length (matches w) = length (matches v) + matchesFound w"
    and p: "pass v v' False"
  have "iterationCount v' = iterationCount v + 1"
    "matchesFound v' + length (matches v) = length (matches v') + matchesFound v"
    using p by (simp_all add: pass_def Let_def)
  then show "iterationCount v' \<le> iterationCount w + bsize w + 1 \<and>
      matchesFound v' + length (matches w) = length (matches v') + matchesFound w"
    using i by auto
qed


text \<open>
  C9. A sweep over books in which every pointer rests once comes to an end, without a panic,
  after at most one pass more than there are resting orders. A pass that prints a match
  leaves fewer orders in the books than it found (the order whose amount was the traded
  minimum is at zero and is not pushed back), and a pass that prints none ends in \<^verbatim>\<open>break\<close>.
  Positive amounts are not needed for this.
\<close>

theorem MatchOrders_terminates:
  assumes "no_shared me"
  shows "(\<exists>w. MatchOrders me = Some (Inr w) \<and>
              iterationCount w \<le> length (BuyOrders me) + length (SellOrders me) + 1 \<and>
              matchesFound w = length (matches w)) \<and>
         (\<forall>v. eng v = me \<longrightarrow>
              (\<exists>v' c. MatchOrders_iter v = Inr (v', c) \<and>
                       (matches v' \<noteq> matches v \<longrightarrow> bsize v' < bsize v) \<and>
                       (matches v' = matches v \<longrightarrow> \<not> c)))"
proof (intro conjI allI impI)
  show "\<exists>w. MatchOrders me = Some (Inr w) \<and>
      iterationCount w \<le> length (BuyOrders me) + length (SellOrders me) + 1 \<and>
      matchesFound w = length (matches w)"
    using loop_terminates [of "\<lparr>eng = me, matchesFound = 0, iterationCount = 0, matches = []\<rparr>"] assms
    by (simp add: MatchOrders_def bsize_def)
next
  fix v :: sweep
  assume "eng v = me"
  then obtain v' c where it: "MatchOrders_iter v = Inr (v', c)" and ps: "pass v v' c"
    using iter_pass [of v] assms by blast
  have "bsize v' < bsize v" if "matches v' \<noteq> matches v"
    using pass_trade_decreases [OF ps that] .
  moreover have "\<not> c" if "matches v' = matches v"
    using ps that by (auto simp add: pass_def Let_def)
  ultimately show "\<exists>v' c. MatchOrders_iter v = Inr (v', c) \<and>
      (matches v' \<noteq> matches v \<longrightarrow> bsize v' < bsize v) \<and> (matches v' = matches v \<longrightarrow> \<not> c)"
    using it by blast
qed

theorem MatchOrders_terminates_witness:
  "no_shared crossed_engine \<and>
   (\<exists>w. MatchOrders crossed_engine = Some (Inr w) \<and> iterationCount w \<le> 4 \<and>
        matchesFound w = length (matches w))"
proof -
  have h: "no_shared crossed_engine" by (simp add: no_shared_def crossed_engine_def)
  have l: "length (BuyOrders crossed_engine) + length (SellOrders crossed_engine) + 1 = 4"
    by (simp add: crossed_engine_def)
  show ?thesis using h MatchOrders_terminates [OF h, THEN conjunct1] unfolding l by simp
qed

section \<open>The claims about one pass\<close>

lemma logical_eqI:
  "ID v = ID v' \<Longrightarrow> Type v = Type v' \<Longrightarrow> Price v = Price v' \<Longrightarrow> Amount v = Amount v' \<Longrightarrow>
   logical v = logical v'"
  by (cases v, cases v') (simp add: logical_def)





text \<open>
  C2. If both books are non-empty and the buy root's price is below the sell root's, the pass
  prints no match, pushes each of the two orders back onto its own book and breaks, so the
  sweep ends with this pass. The books hold the same orders as before, and no order's
  identifier, side, price or amount has changed (only \<^verbatim>\<open>Index\<close> is rewritten by the heap).
\<close>

theorem MatchOrders_iter_no_cross:
  assumes "no_shared (eng w)" "BuyOrders (eng w) \<noteq> []" "SellOrders (eng w) \<noteq> []"
    and "Price (memory (eng w) (BuyOrders (eng w) ! 0)) < Price (memory (eng w) (SellOrders (eng w) ! 0))"
  shows "\<exists>w'. MatchOrders_iter w = Inr (w', False) \<and>
              MatchOrders_loop w = Some (Inr w') \<and>
              matches w' = matches w \<and>
              mset (BuyOrders (eng w')) = mset (BuyOrders (eng w)) \<and>
              mset (SellOrders (eng w')) = mset (SellOrders (eng w)) \<and>
              BuyOrders (eng w) ! 0 \<in> set (BuyOrders (eng w')) \<and>
              SellOrders (eng w) ! 0 \<in> set (SellOrders (eng w')) \<and>
              (\<forall>p. logical (memory (eng w') p) = logical (memory (eng w) p))"
proof -
  obtain w' c where it: "MatchOrders_iter w = Inr (w', c)" and pa: "pass w w' c"
    using iter_pass [OF assms(1)] by blast
  have c: "c = False" using pa assms(4) by (simp add: pass_def Let_def)
  have mb: "mset (BuyOrders (eng w')) = mset (BuyOrders (eng w))"
    and ms: "mset (SellOrders (eng w')) = mset (SellOrders (eng w))"
    and mm: "matches w' = matches w"
    and fl: "ID (memory (eng w') p) = ID (memory (eng w) p)"
      "Type (memory (eng w') p) = Type (memory (eng w) p)"
      "Price (memory (eng w') p) = Price (memory (eng w) p)"
      "Amount (memory (eng w') p) = Amount (memory (eng w) p)" for p
    using pa assms(4) by (simp_all add: pass_def Let_def)
  have "BuyOrders (eng w) ! 0 \<in> set (BuyOrders (eng w'))"
    using mset_eq_setD [OF mb] assms(2) by simp
  moreover have "SellOrders (eng w) ! 0 \<in> set (SellOrders (eng w'))"
    using mset_eq_setD [OF ms] assms(3) by simp
  moreover have "MatchOrders_loop w = Some (Inr w')"
    using it c by (subst MatchOrders_loop.simps) simp
  moreover have "logical (memory (eng w') p) = logical (memory (eng w) p)" for p
    by (rule logical_eqI) (rule fl)+
  ultimately show ?thesis using it c mb ms mm by blast
qed

theorem MatchOrders_iter_no_cross_witness:
  "no_shared quiet_engine \<and> BuyOrders quiet_engine \<noteq> [] \<and> SellOrders quiet_engine \<noteq> [] \<and>
   Price (memory quiet_engine (BuyOrders quiet_engine ! 0))
     < Price (memory quiet_engine (SellOrders quiet_engine ! 0)) \<and>
   (\<exists>w'. MatchOrders quiet_engine = Some (Inr w') \<and> matches w' = [] \<and>
         mset (BuyOrders (eng w')) = {#0#} \<and> mset (SellOrders (eng w')) = {#1#} \<and>
         logical (memory (eng w') 0) = logical (order_of 1 ''BUY'' 99 5))"
proof -
  let ?w = "\<lparr>eng = quiet_engine, matchesFound = 0, iterationCount = 0, matches = []\<rparr>"
  have h: "no_shared (eng ?w)" "BuyOrders (eng ?w) \<noteq> []" "SellOrders (eng ?w) \<noteq> []"
    "Price (memory (eng ?w) (BuyOrders (eng ?w) ! 0)) < Price (memory (eng ?w) (SellOrders (eng ?w) ! 0))"
    by (simp_all add: no_shared_def quiet_engine_def order_of_def)
  have e: "BuyOrders quiet_engine = [0]" "SellOrders quiet_engine = [1]"
    "memory quiet_engine 0 = order_of 1 ''BUY'' 99 5"
    by (simp_all add: quiet_engine_def)
  show ?thesis
    using h MatchOrders_iter_no_cross [OF h]
    by (auto simp add: MatchOrders_def e)
qed

section \<open>The engine's operations\<close>

lemma heap_ord_frame:
  assumes "\<And>p. p \<in> set h \<Longrightarrow> Price (s' p) = Price (s p)"
  shows "heap_ord k (s', h) = heap_ord k (s, h)"
proof -
  have "key (s', h) m = key (s, h) m" if "m < length h" for m
    unfolding key_def using assms that by simp
  then have "heap_upto k (s', h) (length h) = heap_upto k (s, h) (length h)"
    by (intro heap_upto_cong)
  then show ?thesis by (simp add: heap_ord_def)
qed

lemma two_ok_frame:
  assumes "two_ok s k h k' h'" "\<And>p. p \<in> set h \<union> set h' \<Longrightarrow> s' p = s p"
  shows "two_ok s' k h k' h'"
proof -
  have ok: "idx_ok (s, h)" "idx_ok (s, h')" "set h \<inter> set h' = {}"
    "heap_ord k (s, h)" "heap_ord k' (s, h')"
    using assms(1) by (simp_all add: two_ok_def)
  have "idx_ok (s', h)" by (rule idx_ok_frame [OF _ ok(1)]) (simp add: assms(2))
  moreover have "idx_ok (s', h')" by (rule idx_ok_frame [OF _ ok(2)]) (simp add: assms(2))
  moreover have "heap_ord k (s', h) = heap_ord k (s, h)"
    by (rule heap_ord_frame) (simp add: assms(2))
  moreover have "heap_ord k' (s', h') = heap_ord k' (s, h')"
    by (rule heap_ord_frame) (simp add: assms(2))
  ultimately show ?thesis using ok by (simp add: two_ok_def)
qed

lemma addOrderInternal_books:
  "set (BuyOrders (addOrderInternal me x)) \<union> set (SellOrders (addOrderInternal me x)) =
     insert x (set (BuyOrders me) \<union> set (SellOrders me))"
  by (cases "Type (memory me x) = ''BUY''") (simp_all add: addOrderInternal_buy addOrderInternal_sell)

lemma addOrderInternal_logical:
  "logical (memory (addOrderInternal me x) p) = logical (memory me p)"
  by (cases "Type (memory me x) = ''BUY''") (simp_all add: addOrderInternal_buy addOrderInternal_sell)

lemma addOrderInternal_brk [simp]: "brk (addOrderInternal me x) = brk me"
  by (cases "Type (memory me x) = ''BUY''") (simp_all add: addOrderInternal_buy addOrderInternal_sell)

lemma addOrderInternal_orderChannel [simp]:
  "orderChannel (addOrderInternal me x) = orderChannel me"
  by (cases "Type (memory me x) = ''BUY''") (simp_all add: addOrderInternal_buy addOrderInternal_sell)

lemma addOrderInternal_frame:
  "p \<notin> set (BuyOrders me) \<union> set (SellOrders me) \<Longrightarrow> p \<noteq> x \<Longrightarrow>
     memory (addOrderInternal me x) p = memory me p"
  by (cases "Type (memory me x) = ''BUY''")
    (simp_all add: addOrderInternal_buy addOrderInternal_sell heap_Push_frame)

lemma addOrderInternal_books_ok:
  assumes "books_ok me" "x \<notin> set (BuyOrders me) \<union> set (SellOrders me)"
  shows "books_ok (addOrderInternal me x)"
proof (cases "Type (memory me x) = ''BUY''")
  case True
  obtain s1 h1 where p: "heap_Push BuyHeap (memory me, BuyOrders me) x = (s1, h1)"
    by (cases "heap_Push BuyHeap (memory me, BuyOrders me) x")
  have "two_ok (memory me) BuyHeap (BuyOrders me) SellHeap (SellOrders me)"
    using assms(1) by (simp add: books_ok_def)
  moreover have "x \<notin> set (BuyOrders me)" "x \<notin> set (SellOrders me)" using assms(2) by simp_all
  ultimately have "two_ok s1 BuyHeap h1 SellHeap (SellOrders me)"
    using p by (rule two_ok_Push)
  then show ?thesis by (simp add: addOrderInternal_buy [OF True] books_ok_def p)
next
  case False
  obtain s1 h1 where p: "heap_Push SellHeap (memory me, SellOrders me) x = (s1, h1)"
    by (cases "heap_Push SellHeap (memory me, SellOrders me) x")
  have "two_ok (memory me) SellHeap (SellOrders me) BuyHeap (BuyOrders me)"
    using assms(1) by (simp add: books_ok_def two_ok_sym [of _ SellHeap])
  moreover have "x \<notin> set (SellOrders me)" "x \<notin> set (BuyOrders me)" using assms(2) by simp_all
  ultimately have "two_ok s1 SellHeap h1 BuyHeap (BuyOrders me)"
    using p by (rule two_ok_Push)
  then show ?thesis by (simp add: addOrderInternal_sell [OF False] books_ok_def p two_ok_sym [of _ SellHeap])
qed

lemma addOrderInternal_all_positive:
  assumes "all_positive me" "0 <s Amount (memory me x)"
  shows "all_positive (addOrderInternal me x)"
proof -
  have "Amount (memory (addOrderInternal me x) p) = Amount (memory me p)" for p
    using logical_fields [OF addOrderInternal_logical [of me x p]] by simp
  then show ?thesis
    using assms addOrderInternal_books [of me x] unfolding all_positive_def by auto
qed


lemma processOrders_range_props:
  "set (BuyOrders (processOrders_range xs me)) \<union> set (SellOrders (processOrders_range xs me)) =
     set xs \<union> set (BuyOrders me) \<union> set (SellOrders me)"
  "logical (memory (processOrders_range xs me) p) = logical (memory me p)"
  "brk (processOrders_range xs me) = brk me"
  "orderChannel (processOrders_range xs me) = orderChannel me"
  "p \<notin> set (BuyOrders me) \<union> set (SellOrders me) \<union> set xs \<Longrightarrow>
     memory (processOrders_range xs me) p = memory me p"
proof (induction xs arbitrary: me)
  case Nil
  {
    case 1 show ?case by simp
  next
    case 2 show ?case by simp
  next
    case 3 show ?case by simp
  next
    case 4 show ?case by simp
  next
    case 5 show ?case by simp
  }
next
  case (Cons x xs)
  {
    case 1
    show ?case using Cons(1) [of "addOrderInternal me x"] addOrderInternal_books [of me x] by auto
  next
    case 2
    show ?case using Cons(2) [of "addOrderInternal me x"] by (simp add: addOrderInternal_logical)
  next
    case 3
    show ?case using Cons(3) [of "addOrderInternal me x"] by simp
  next
    case 4
    show ?case using Cons(4) [of "addOrderInternal me x"] by simp
  next
    case 5
    then show ?case
      using Cons(5) [of "addOrderInternal me x"] addOrderInternal_books [of me x]
      by (simp add: addOrderInternal_frame)
  }
qed

lemma processOrders_range_books_ok:
  assumes "books_ok me" "distinct xs" "set xs \<inter> (set (BuyOrders me) \<union> set (SellOrders me)) = {}"
  shows "books_ok (processOrders_range xs me)"
  using assms
proof (induction xs arbitrary: me)
  case Nil
  then show ?case by simp
next
  case (Cons x xs)
  have "books_ok (addOrderInternal me x)"
    using Cons(2,4) by (auto intro: addOrderInternal_books_ok)
  moreover have "set xs \<inter> (set (BuyOrders (addOrderInternal me x)) \<union> set (SellOrders (addOrderInternal me x))) = {}"
    using Cons(3,4) unfolding addOrderInternal_books by auto
  ultimately show ?case using Cons(1) [of "addOrderInternal me x"] Cons(3) by simp
qed

lemma processOrders_engine_ok:
  assumes "engine_ok me"
  shows "engine_ok (processOrders me)" "orderChannel (processOrders me) = []"
    "set (BuyOrders (processOrders me)) \<union> set (SellOrders (processOrders me)) =
       set (orderChannel me) \<union> set (BuyOrders me) \<union> set (SellOrders me)"
proof -
  let ?me = "me\<lparr>orderChannel := []\<rparr>"
  have b: "books_ok ?me" using assms by (simp add: engine_ok_def books_ok_def)
  have "books_ok (processOrders_range (orderChannel me) ?me)"
    using assms by (auto intro!: processOrders_range_books_ok [OF b] simp add: engine_ok_def)
  moreover show ch: "orderChannel (processOrders me) = []"
    by (simp add: processOrders_def processOrders_range_props)
  moreover show bk: "set (BuyOrders (processOrders me)) \<union> set (SellOrders (processOrders me)) =
       set (orderChannel me) \<union> set (BuyOrders me) \<union> set (SellOrders me)"
    using processOrders_range_props(1) [of "orderChannel me" ?me] by (simp add: processOrders_def)
  moreover have "brk (processOrders me) = brk me"
    by (simp add: processOrders_def processOrders_range_props)
  ultimately show "engine_ok (processOrders me)"
    using assms unfolding engine_ok_def processOrders_def [symmetric] by auto
qed

lemma new_Order_engine_ok:
  assumes "engine_ok me"
  shows "engine_ok (snd (new_Order me v))"
proof -
  have "two_ok (memory me) BuyHeap (BuyOrders me) SellHeap (SellOrders me)"
    using assms by (simp add: engine_ok_def books_ok_def)
  then have "two_ok ((memory me)(brk me := v)) BuyHeap (BuyOrders me) SellHeap (SellOrders me)"
  proof (rule two_ok_frame)
    fix p assume "p \<in> set (BuyOrders me) \<union> set (SellOrders me)"
    then have "p < brk me" using assms by (simp add: engine_ok_def)
    then show "((memory me)(brk me := v)) p = memory me p" by simp
  qed
  then show ?thesis
    using assms by (auto simp add: engine_ok_def books_ok_def new_Order_def less_Suc_eq)
qed

lemma AddOrderHandler_engine_ok:
  assumes "engine_ok me"
  shows "engine_ok (snd (AddOrderHandler me body))"
proof (cases body)
  case None
  then show ?thesis using assms by (simp add: AddOrderHandler_def)
next
  case (Some v)
  have ok: "engine_ok (snd (new_Order me v))" using new_Order_engine_ok [OF assms] .
  have "brk me \<notin> set (BuyOrders me) \<union> set (SellOrders me) \<union> set (orderChannel me)"
    using assms by (auto simp add: engine_ok_def)
  then show ?thesis
    using ok Some by (auto simp add: AddOrderHandler_def AddOrder_def new_Order_def engine_ok_def books_ok_def)
qed

lemma GetHighestBuyOrder_eq:
  "GetHighestBuyOrder me =
     (if BuyOrders me \<noteq> [] then (Some (brk me), snd (new_Order me (memory me (BuyOrders me ! 0))))
      else (None, me))"
  by (simp add: GetHighestBuyOrder_def new_Order_def Len_def)

lemma GetHighestSellOrder_eq:
  "GetHighestSellOrder me =
     (if SellOrders me \<noteq> [] then (Some (brk me), snd (new_Order me (memory me (SellOrders me ! 0))))
      else (None, me))"
  by (simp add: GetHighestSellOrder_def new_Order_def Len_def)

lemma GetHighest_engine_ok:
  assumes "engine_ok me"
  shows "engine_ok (snd (GetHighestBuyOrder me))" "engine_ok (snd (GetHighestSellOrder me))"
  using assms new_Order_engine_ok [OF assms]
  by (simp_all add: GetHighestBuyOrder_eq GetHighestSellOrder_eq)

lemma in_mset_diff_distinct:
  assumes "distinct xs" "mset ys = mset xs - {#b#}"
  shows "b \<notin> set ys"
proof -
  have "count (mset xs) b \<le> 1" using assms(1) by (simp add: distinct_count_atmost_1)
  then have "count (mset ys) b = 0" unfolding assms(2) by simp
  then show ?thesis by (simp add: count_eq_zero_iff)
qed

lemma pass_resting:
  assumes "pass w w' c" "no_shared (eng w)"
    and "p \<in> set (BuyOrders (eng w')) \<union> set (SellOrders (eng w'))"
  shows "Amount (memory (eng w') p) = Amount (memory (eng w) p) \<or> 0 <s Amount (memory (eng w') p)"
proof -
  define me where "me = eng w"
  define s where "s = memory me"
  define s' where "s' = memory (eng w')"
  define b where "b = BuyOrders me ! 0"
  define a where "a = SellOrders me ! 0"
  define t where "t = min_go (Amount (s b)) (Amount (s a))"
  define crossing where
    "crossing \<longleftrightarrow> BuyOrders me \<noteq> [] \<and> SellOrders me \<noteq> [] \<and> Price (s a) \<le> Price (s b)"
  have am: "Amount (s' q) = (if crossing \<and> (q = b \<or> q = a) then Amount (s q) - t else Amount (s q))"
    and mb: "mset (BuyOrders (eng w')) =
      (if crossing \<and> \<not> 0 <s Amount (s b) - t then mset (BuyOrders me) - {#b#} else mset (BuyOrders me))"
    and ms: "mset (SellOrders (eng w')) =
      (if crossing \<and> \<not> 0 <s Amount (s a) - t then mset (SellOrders me) - {#a#} else mset (SellOrders me))"
    for q
    using assms(1) unfolding pass_def Let_def me_def s_def s'_def b_def a_def t_def crossing_def
    by simp_all
  have d: "distinct (BuyOrders me)" "distinct (SellOrders me)"
    "set (BuyOrders me) \<inter> set (SellOrders me) = {}"
    using assms(2) by (simp_all add: no_shared_def me_def)
  note sub = pass_subset [OF assms(1), folded me_def]
  show ?thesis
  proof (cases "crossing \<and> (p = b \<or> p = a)")
    case False
    then have "Amount (s' p) = Amount (s p)" using am [of p] by auto
    then show ?thesis by (simp add: s_def s'_def me_def)
  next
    case True
    then have cr: crossing by simp
    then have bin: "b \<in> set (BuyOrders me)" and ain: "a \<in> set (SellOrders me)"
      by (simp_all add: crossing_def b_def a_def)
    have "0 <s Amount (s p) - t"
    proof (cases "p = b")
      case pb: True
      then have "b \<notin> set (SellOrders (eng w'))" using bin d(3) sub(2) by auto
      then have "b \<in> set (BuyOrders (eng w'))" using assms(3) pb by simp
      then have "mset (BuyOrders (eng w')) \<noteq> mset (BuyOrders me) - {#b#}"
        using in_mset_diff_distinct [OF d(1)] by blast
      then show ?thesis using mb cr pb by (auto split: if_splits)
    next
      case False
      then have pa: "p = a" using True by simp
      then have "a \<notin> set (BuyOrders (eng w'))" using ain d(3) sub(1) by auto
      then have "a \<in> set (SellOrders (eng w'))" using assms(3) pa by simp
      then have "mset (SellOrders (eng w')) \<noteq> mset (SellOrders me) - {#a#}"
        using in_mset_diff_distinct [OF d(2)] by blast
      then show ?thesis using ms cr pa by (auto split: if_splits)
    qed
    then show ?thesis using am [of p] True by (simp add: s'_def)
  qed
qed

lemma pass_all_positive:
  assumes "pass w w' c" "no_shared (eng w)" "all_positive (eng w)"
  shows "all_positive (eng w')"
  unfolding all_positive_def
proof
  fix p assume p: "p \<in> set (BuyOrders (eng w')) \<union> set (SellOrders (eng w'))"
  then have "p \<in> set (BuyOrders (eng w)) \<union> set (SellOrders (eng w))"
    using pass_subset [OF assms(1)] by auto
  then have "0 <s Amount (memory (eng w) p)" using assms(3) by (simp add: all_positive_def)
  then show "0 <s Amount (memory (eng w') p)"
    using pass_resting [OF assms(1,2) p] by auto
qed

lemma loop_inv:
  assumes "no_shared (eng w)" "I w"
    and "\<And>v v' c. no_shared (eng v) \<Longrightarrow> I v \<Longrightarrow> MatchOrders_iter v = Inr (v', c) \<Longrightarrow>
        pass v v' c \<Longrightarrow> (books_ok (eng v) \<longrightarrow> books_ok (eng v')) \<Longrightarrow> I v'"
  shows "\<exists>w'. MatchOrders_loop w = Some (Inr w') \<and> I w'"
  by (rule loop_rule [where I = I, OF assms(1,2)]) (use assms(3) in blast)+

lemma kept_refl: "no_shared (eng w) \<Longrightarrow> kept w w"
  by (simp add: kept_def)

lemma kept_pass:
  assumes "kept w v" "pass v v' c" "books_ok (eng v) \<longrightarrow> books_ok (eng v')"
  shows "kept w v'"
proof -
  have ns: "no_shared (eng v)" using assms(1) by (simp add: kept_def)
  note sub = pass_subset [OF assms(2)]
  have fr: "memory (eng v') p = memory (eng v) p"
    if "p \<notin> set (BuyOrders (eng v)) \<union> set (SellOrders (eng v))" for p
    using assms(2) that by (simp add: pass_def Let_def)
  have fl: "ID (memory (eng v') p) = ID (memory (eng v) p)"
    "Type (memory (eng v') p) = Type (memory (eng v) p)"
    "Price (memory (eng v') p) = Price (memory (eng v) p)"
    "brk (eng v') = brk (eng v)" "orderChannel (eng v') = orderChannel (eng v)" for p
    using assms(2) by (simp_all add: pass_def Let_def)
  have "memory (eng v') p = memory (eng w) p"
    if "p \<notin> set (BuyOrders (eng w)) \<union> set (SellOrders (eng w))" for p
  proof -
    have "p \<notin> set (BuyOrders (eng v)) \<union> set (SellOrders (eng v))"
      using that assms(1) by (auto simp add: kept_def)
    then show ?thesis using fr [of p] that assms(1) by (simp add: kept_def)
  qed
  then show ?thesis
    using assms(1,3) pass_no_shared [OF assms(2) ns] pass_all_positive [OF assms(2) ns] sub fl
    unfolding kept_def by auto
qed

lemma sweep_kept:
  assumes "no_shared (eng w)"
  shows "\<exists>w'. MatchOrders_loop w = Some (Inr w') \<and> kept w w'"
proof (rule loop_inv [where I = "kept w", OF assms kept_refl [OF assms]])
  fix v v' c
  assume "kept w v" "pass v v' c" "books_ok (eng v) \<longrightarrow> books_ok (eng v')"
  then show "kept w v'" by (rule kept_pass)
qed

section \<open>What every run of the program keeps\<close>

lemma run_rule:
  assumes "J ss"
    and "\<And>ss r. J ss \<Longrightarrow> r \<in> set rs \<Longrightarrow> \<exists>ss'. serve ss r = Some (Inr ss') \<and> J ss'"
  shows "\<exists>ss'. run ss rs = Some (Inr ss') \<and> J ss'"
  using assms
proof (induction rs arbitrary: ss)
  case Nil
  then show ?case by simp
next
  case (Cons r rs)
  obtain ss1 where s1: "serve ss r = Some (Inr ss1)" "J ss1"
    using Cons(3) [OF Cons(2), of r] by auto
  have "\<exists>ss'. run ss1 rs = Some (Inr ss') \<and> J ss'"
    using Cons(1) [OF s1(2)] Cons(3) by simp
  then show ?case using s1(1) by simp
qed

lemma engine_ok_no_shared: "engine_ok me \<Longrightarrow> no_shared me"
  by (simp add: engine_ok_def books_ok_no_shared)

lemma MatchOrders_kept:
  assumes "no_shared me"
  shows "\<exists>w. MatchOrders me = Some (Inr w) \<and>
           kept \<lparr>eng = me, matchesFound = 0, iterationCount = 0, matches = []\<rparr> w"
  using sweep_kept [of "\<lparr>eng = me, matchesFound = 0, iterationCount = 0, matches = []\<rparr>"] assms
  by (simp add: MatchOrders_def)

lemma MatchOrders_engine_ok:
  assumes "engine_ok me"
  shows "\<exists>w. MatchOrders me = Some (Inr w) \<and> engine_ok (eng w)"
proof -
  obtain w where w: "MatchOrders me = Some (Inr w)"
    and k: "kept \<lparr>eng = me, matchesFound = 0, iterationCount = 0, matches = []\<rparr> w"
    using MatchOrders_kept [OF engine_ok_no_shared [OF assms]] by blast
  have "engine_ok (eng w)"
    using k assms unfolding kept_def engine_ok_def by auto
  then show ?thesis using w by blast
qed

lemma serve_engine_ok:
  assumes "engine_ok (core ss)"
  shows "\<exists>ss'. serve ss r = Some (Inr ss') \<and> engine_ok (core ss')"
proof (cases r)
  case (PostOrders body)
  then show ?thesis
    using processOrders_engine_ok(1) [OF AddOrderHandler_engine_ok [OF assms, of body]] by simp
next
  case MatcherTick
  then show ?thesis using MatchOrders_engine_ok [OF assms] by auto
next
  case GetHighestBuy
  then show ?thesis using GetHighest_engine_ok(1) [OF assms] by simp
next
  case GetHighestSell
  then show ?thesis using GetHighest_engine_ok(2) [OF assms] by simp
qed

lemma engine_ok_New: "engine_ok NewMatchingEngine"
  by (simp add: engine_ok_def books_ok_def two_ok_def idx_ok_def heap_ord_def heap_upto_def
      NewMatchingEngine_def)

lemma run_engine_ok:
  "\<exists>ss. run start rs = Some (Inr ss) \<and> engine_ok (core ss)"
proof (rule run_rule [where J = "\<lambda>ss. engine_ok (core ss)"])
  show "engine_ok (core start)" by (simp add: start_def engine_ok_New)
next
  fix ss :: server and r :: request
  assume "engine_ok (core ss)"
  then show "\<exists>ss'. serve ss r = Some (Inr ss') \<and> engine_ok (core ss')" by (rule serve_engine_ok)
qed

lemma books_ok_roots_extremal:
  assumes "books_ok me"
  shows "roots_extremal me"
proof -
  have hb: "heap_ord BuyHeap (memory me, BuyOrders me)" and hs: "heap_ord SellHeap (memory me, SellOrders me)"
    using assms by (simp_all add: books_ok_def two_ok_def)
  have "Price (memory me p) \<le> Price (memory me (BuyOrders me ! 0))" if pin: "p \<in> set (BuyOrders me)" for p
  proof -
    obtain m where m: "m < length (BuyOrders me)" "p = BuyOrders me ! m"
      using pin by (metis in_set_conv_nth)
    show ?thesis using heap_ord_root [OF hb, of m] m by (simp add: above_def key_def)
  qed
  moreover have "Price (memory me (SellOrders me ! 0)) \<le> Price (memory me p)" if pin: "p \<in> set (SellOrders me)" for p
  proof -
    obtain m where m: "m < length (SellOrders me)" "p = SellOrders me ! m"
      using pin by (metis in_set_conv_nth)
    show ?thesis using heap_ord_root [OF hs, of m] m by (simp add: above_def key_def)
  qed
  ultimately show ?thesis by (simp add: roots_extremal_def)
qed

section \<open>The claims about the books\<close>

text \<open>
  C4. After every sequence of posted orders, sweeps and queries, run from the empty engine,
  both books are in heap order under their \<^verbatim>\<open>Less\<close>, and so the root of the buy book has the
  highest price of all orders in it and the root of the sell book the lowest.
\<close>

theorem root_is_extremal:
  "\<exists>ss. run start rs = Some (Inr ss) \<and>
        heap_ord BuyHeap (memory (core ss), BuyOrders (core ss)) \<and>
        heap_ord SellHeap (memory (core ss), SellOrders (core ss)) \<and>
        roots_extremal (core ss)"
proof -
  obtain ss where "run start rs = Some (Inr ss)" "engine_ok (core ss)"
    using run_engine_ok by blast
  moreover have "books_ok (core ss)" using calculation(2) by (simp add: engine_ok_def)
  ultimately show ?thesis
    using books_ok_roots_extremal [of "core ss"] by (auto simp add: books_ok_def two_ok_def)
qed

theorem root_is_extremal_witness:
  "\<exists>ss. run start [PostOrders (Some (order_of 1 ''BUY'' 100 1)),
                    PostOrders (Some (order_of 2 ''BUY'' 105 1)),
                    PostOrders (Some (order_of 3 ''SELL'' 100 1)),
                    PostOrders (Some (order_of 4 ''SELL'' 103 2))] = Some (Inr ss) \<and>
        roots_extremal (core ss) \<and>
        BuyOrders (core ss) = [1, 0] \<and> Price (memory (core ss) 1) = 105 \<and>
        SellOrders (core ss) = [2, 3] \<and> Price (memory (core ss) 2) = 100"
proof -
  let ?rs = "[PostOrders (Some (order_of 1 ''BUY'' 100 1)),
              PostOrders (Some (order_of 2 ''BUY'' 105 1)),
              PostOrders (Some (order_of 3 ''SELL'' 100 1)),
              PostOrders (Some (order_of 4 ''SELL'' 103 2))]"
  have e: "(case run start ?rs of
             Some (Inr ss) \<Rightarrow> BuyOrders (core ss) = [1, 0] \<and> Price (memory (core ss) 1) = 105 \<and>
               SellOrders (core ss) = [2, 3] \<and> Price (memory (core ss) 2) = 100
           | _ \<Rightarrow> False)"
    by code_simp
  show ?thesis using root_is_extremal [of ?rs] e by auto
qed

text \<open>
  C7. In every state the running program reaches, the order at position \<open>i\<close> of either book
  has \<^verbatim>\<open>Index\<close> \<open>i\<close>. For a slice that holds no pointer twice this is kept by \<^verbatim>\<open>Swap\<close>, by
  \<^verbatim>\<open>Push\<close> and \<^verbatim>\<open>heap.Push\<close> of a pointer not yet in the slice, and by \<^verbatim>\<open>Pop\<close> and \<^verbatim>\<open>heap.Pop\<close>;
  \<^verbatim>\<open>heap.Pop\<close> returns the root, and the order it removed has \<^verbatim>\<open>Index\<close> \<open>-1\<close>.
\<close>

theorem heap_index_is_position:
  "(\<exists>ss. run start rs = Some (Inr ss) \<and>
         (\<forall>i<length (BuyOrders (core ss)). Index (memory (core ss) (BuyOrders (core ss) ! i)) = int i) \<and>
         (\<forall>i<length (SellOrders (core ss)). Index (memory (core ss) (SellOrders (core ss) ! i)) = int i)) \<and>
   (idx_ok sh \<longrightarrow>
      (\<forall>i<length (snd sh). Index (fst sh (snd sh ! i)) = int i) \<and>
      (\<forall>i j. i < length (snd sh) \<and> j < length (snd sh) \<longrightarrow> idx_ok (Swap sh i j)) \<and>
      (\<forall>x. x \<notin> set (snd sh) \<longrightarrow> idx_ok (Push sh x) \<and> idx_ok (heap_Push k sh x)) \<and>
      (snd sh \<noteq> [] \<longrightarrow>
         (\<exists>sh'. Pop sh = Inr (last (snd sh), sh') \<and> idx_ok sh' \<and>
                Index (fst sh' (last (snd sh))) = - 1) \<and>
         (\<exists>sh'. heap_Pop k sh = Inr (snd sh ! 0, sh') \<and> idx_ok sh' \<and>
                Index (fst sh' (snd sh ! 0)) = - 1)))"
proof (intro conjI impI allI)
  obtain ss where ss: "run start rs = Some (Inr ss)" "engine_ok (core ss)"
    using run_engine_ok by blast
  then have "idx_ok (memory (core ss), BuyOrders (core ss))" "idx_ok (memory (core ss), SellOrders (core ss))"
    by (simp_all add: engine_ok_def books_ok_def two_ok_def)
  then show "\<exists>ss. run start rs = Some (Inr ss) \<and>
         (\<forall>i<length (BuyOrders (core ss)). Index (memory (core ss) (BuyOrders (core ss) ! i)) = int i) \<and>
         (\<forall>i<length (SellOrders (core ss)). Index (memory (core ss) (SellOrders (core ss) ! i)) = int i)"
    using ss(1) by (auto simp add: idx_ok_def)
next
  fix i assume "idx_ok sh" "i < length (snd sh)"
  then show "Index (fst sh (snd sh ! i)) = int i" by (simp add: idx_ok_def)
next
  fix i j assume "idx_ok sh" "i < length (snd sh) \<and> j < length (snd sh)"
  then show "idx_ok (Swap sh i j)" by (simp add: Swap_idx_ok)
next
  fix x assume "idx_ok sh" "x \<notin> set (snd sh)"
  then show "idx_ok (Push sh x)" "idx_ok (heap_Push k sh x)"
    by (simp_all add: Push_idx_ok heap_Push_idx_ok)
next
  assume ok: "idx_ok sh" and ne: "snd sh \<noteq> []"
  obtain sh1 where p1: "Pop sh = Inr (last (snd sh), sh1)" using Pop_Inr [OF ne] by blast
  show "\<exists>sh'. Pop sh = Inr (last (snd sh), sh') \<and> idx_ok sh' \<and> Index (fst sh' (last (snd sh))) = - 1"
    using Pop_idx_ok [OF ok p1] p1 by blast
  obtain sh2 where p2: "heap_Pop k sh = Inr (snd sh ! 0, sh2)" using heap_Pop_Inr [OF ne] by blast
  show "\<exists>sh'. heap_Pop k sh = Inr (snd sh ! 0, sh') \<and> idx_ok sh' \<and> Index (fst sh' (snd sh ! 0)) = - 1"
    using heap_Pop_props(7) [OF p2 ok] p2 by blast
qed

theorem heap_index_is_position_witness:
  "idx_ok (memory crossed_engine, BuyOrders crossed_engine) \<and>
   BuyOrders crossed_engine = [0, 1] \<and>
   (\<exists>sh'. heap_Pop BuyHeap (memory crossed_engine, BuyOrders crossed_engine) = Inr (0, sh') \<and>
          idx_ok sh' \<and> Index (fst sh' 0) = - 1 \<and> snd sh' = [1] \<and> Index (fst sh' 1) = 0)"
proof -
  let ?sh = "(memory crossed_engine, BuyOrders crossed_engine)"
  have b: "BuyOrders crossed_engine = [0, 1]" by (simp add: crossed_engine_def)
  have h: "idx_ok ?sh"
    by (simp add: idx_ok_def crossed_engine_def order_of_def less_Suc_eq)
  have e: "(case heap_Pop BuyHeap ?sh of Inr (x, sh') \<Rightarrow> snd sh' = [1] \<and> Index (fst sh' 1) = 0 | _ \<Rightarrow> False)"
    by code_simp
  have "\<exists>sh'. heap_Pop BuyHeap ?sh = Inr (snd ?sh ! 0, sh') \<and> idx_ok sh' \<and>
          Index (fst sh' (snd ?sh ! 0)) = - 1"
    using heap_index_is_position [of "[]" ?sh BuyHeap] h b by simp
  then show ?thesis using h b e by auto
qed

section \<open>Submission and queries\<close>

lemma AddOrderHandler_None [simp]: "AddOrderHandler me None = (400, me)"
  by (simp add: AddOrderHandler_def)

lemma AddOrderHandler_Some:
  "AddOrderHandler me (Some v) =
     (201, me\<lparr>memory := (memory me)(brk me := v), brk := Suc (brk me),
              orderChannel := orderChannel me @ [brk me]\<rparr>)"
  by (simp add: AddOrderHandler_def new_Order_def AddOrder_def)

lemma processOrders_props:
  "set (BuyOrders (processOrders me)) \<union> set (SellOrders (processOrders me)) =
     set (orderChannel me) \<union> set (BuyOrders me) \<union> set (SellOrders me)"
  "logical (memory (processOrders me) p) = logical (memory me p)"
  "brk (processOrders me) = brk me"
  "orderChannel (processOrders me) = []"
  "p \<notin> set (BuyOrders me) \<union> set (SellOrders me) \<union> set (orderChannel me) \<Longrightarrow>
     memory (processOrders me) p = memory me p"
  using processOrders_range_props(1,3,4) [where xs = "orderChannel me" and me = "me\<lparr>orderChannel := []\<rparr>"]
    processOrders_range_props(2,5) [where xs = "orderChannel me" and me = "me\<lparr>orderChannel := []\<rparr>" and p = p]
  by (simp_all add: processOrders_def)

lemma addOrderInternal_side:
  "set (BuyOrders (addOrderInternal me x)) =
     (if Type (memory me x) = ''BUY'' then insert x (set (BuyOrders me)) else set (BuyOrders me))"
  "set (SellOrders (addOrderInternal me x)) =
     (if Type (memory me x) = ''BUY'' then set (SellOrders me) else insert x (set (SellOrders me)))"
  by (cases "Type (memory me x) = ''BUY''"; simp add: addOrderInternal_buy addOrderInternal_sell)+

lemma addOrderInternal_Type [simp]:
  "Type (memory (addOrderInternal me x) p) = Type (memory me p)"
  using logical_fields [OF addOrderInternal_logical [of me x p]] by simp

lemma processOrders_range_side:
  "set (BuyOrders (processOrders_range xs me)) =
     set (BuyOrders me) \<union> {x \<in> set xs. Type (memory me x) = ''BUY''} \<and>
   set (SellOrders (processOrders_range xs me)) =
     set (SellOrders me) \<union> {x \<in> set xs. Type (memory me x) \<noteq> ''BUY''}"
proof (induction xs arbitrary: me)
  case Nil
  show ?case by simp
next
  case (Cons x xs)
  show ?case
    using Cons [of "addOrderInternal me x"]
    by (auto simp add: addOrderInternal_side)
qed

lemma processOrders_side:
  "set (BuyOrders (processOrders me)) =
     set (BuyOrders me) \<union> {x \<in> set (orderChannel me). Type (memory me x) = ''BUY''}"
  "set (SellOrders (processOrders me)) =
     set (SellOrders me) \<union> {x \<in> set (orderChannel me). Type (memory me x) \<noteq> ''BUY''}"
  using processOrders_range_side [of "orderChannel me" "me\<lparr>orderChannel := []\<rparr>"]
  by (simp_all add: processOrders_def)

lemma engine_ok_fresh:
  "engine_ok me \<Longrightarrow> brk me \<notin> set (BuyOrders me) \<union> set (SellOrders me) \<union> set (orderChannel me)"
  by (auto simp add: engine_ok_def)

text \<open>
  C5 fails on the code. \<^verbatim>\<open>AddOrderHandler\<close> rejects only a body that does not decode;
  \<^verbatim>\<open>AddOrder\<close> sends whatever it is given, and the worker inserts it. An order with an
  unknown side, a negative price and amount zero is answered with 201, enqueued, and ends
  up in the sell book.
\<close>

theorem malformed_order_is_enqueued_counterexample:
  "fst (AddOrderHandler NewMatchingEngine (Some (order_of 9 ''HOLD'' (- 1) 0))) = 201 \<and>
   orderChannel (snd (AddOrderHandler NewMatchingEngine (Some (order_of 9 ''HOLD'' (- 1) 0)))) = [0] \<and>
   SellOrders (processOrders (snd (AddOrderHandler NewMatchingEngine
       (Some (order_of 9 ''HOLD'' (- 1) 0))))) = [0] \<and>
   memory (processOrders (snd (AddOrderHandler NewMatchingEngine
       (Some (order_of 9 ''HOLD'' (- 1) 0))))) 0 = order_of 9 ''HOLD'' (- 1) 0"
  by code_simp

text \<open>
  C5 as the code has it: submission validates nothing. A body that fails to decode is
  answered with 400 and leaves the engine as it was. Every decoded order, well formed or
  not, is answered with 201 and its pointer is appended to the channel, the books being as
  they were; the worker then empties the channel and inserts the order, with its
  identifier, side, price and amount as submitted, into the buy book if its \<^verbatim>\<open>Type\<close> is
  exactly \<^verbatim>\<open>"BUY"\<close> and into the sell book otherwise (and, in a state of the running
  program, not into the other book). No decoded order is dropped.
\<close>

theorem AddOrderHandler_enqueues_every_order:
  "AddOrderHandler me None = (400, me) \<and>
   fst (AddOrderHandler me (Some v)) = 201 \<and>
   orderChannel (snd (AddOrderHandler me (Some v))) = orderChannel me @ [brk me] \<and>
   BuyOrders (snd (AddOrderHandler me (Some v))) = BuyOrders me \<and>
   SellOrders (snd (AddOrderHandler me (Some v))) = SellOrders me \<and>
   memory (snd (AddOrderHandler me (Some v))) (brk me) = v \<and>
   orderChannel (processOrders (snd (AddOrderHandler me (Some v)))) = [] \<and>
   brk me \<in> set (if Type v = ''BUY''
                  then BuyOrders (processOrders (snd (AddOrderHandler me (Some v))))
                  else SellOrders (processOrders (snd (AddOrderHandler me (Some v))))) \<and>
   (engine_ok me \<longrightarrow>
      brk me \<notin> set (if Type v = ''BUY''
                     then SellOrders (processOrders (snd (AddOrderHandler me (Some v))))
                     else BuyOrders (processOrders (snd (AddOrderHandler me (Some v)))))) \<and>
   logical (memory (processOrders (snd (AddOrderHandler me (Some v)))) (brk me)) = logical v"
proof -
  let ?me1 = "me\<lparr>memory := (memory me)(brk me := v), brk := Suc (brk me),
                  orderChannel := orderChannel me @ [brk me]\<rparr>"
  have a: "brk me \<in> set (if Type v = ''BUY'' then BuyOrders (processOrders ?me1)
                          else SellOrders (processOrders ?me1))"
    by (simp add: processOrders_side)
  have b: "brk me \<notin> set (if Type v = ''BUY'' then SellOrders (processOrders ?me1)
                          else BuyOrders (processOrders ?me1))" if "engine_ok me"
    using engine_ok_fresh [OF that] by (simp add: processOrders_side)
  show ?thesis
    using a b
    by (cases "Type v = ''BUY''") (simp_all add: AddOrderHandler_Some processOrders_props)
qed

theorem AddOrderHandler_enqueues_every_order_witness:
  "engine_ok NewMatchingEngine \<and>
   fst (AddOrderHandler NewMatchingEngine (Some (order_of 9 ''HOLD'' (- 1) 0))) = 201 \<and>
   orderChannel (snd (AddOrderHandler NewMatchingEngine (Some (order_of 9 ''HOLD'' (- 1) 0)))) = [0] \<and>
   0 \<in> set (SellOrders (processOrders (snd (AddOrderHandler NewMatchingEngine
            (Some (order_of 9 ''HOLD'' (- 1) 0)))))) \<and>
   0 \<notin> set (BuyOrders (processOrders (snd (AddOrderHandler NewMatchingEngine
            (Some (order_of 9 ''HOLD'' (- 1) 0)))))) \<and>
   0 \<in> set (BuyOrders (processOrders (snd (AddOrderHandler NewMatchingEngine
            (Some (order_of 7 ''BUY'' (- 1) 0)))))) \<and>
   0 \<notin> set (SellOrders (processOrders (snd (AddOrderHandler NewMatchingEngine
            (Some (order_of 7 ''BUY'' (- 1) 0))))))"
proof -
  have b: "brk NewMatchingEngine = 0" "orderChannel NewMatchingEngine = []"
    by (simp_all add: NewMatchingEngine_def)
  have t: "Type (order_of 9 ''HOLD'' (- 1) 0) \<noteq> ''BUY''" "Type (order_of 7 ''BUY'' (- 1) 0) = ''BUY''"
    by (simp_all add: order_of_def)
  show ?thesis
    using AddOrderHandler_enqueues_every_order [of NewMatchingEngine "order_of 9 ''HOLD'' (- 1) 0"]
      AddOrderHandler_enqueues_every_order [of NewMatchingEngine "order_of 7 ''BUY'' (- 1) 0"]
      engine_ok_New
    by (simp add: b t)
qed

lemma new_Order_all_positive:
  assumes "engine_ok me" "all_positive me"
  shows "all_positive (snd (new_Order me v))"
proof -
  have "p \<noteq> brk me" if "p \<in> set (BuyOrders me) \<union> set (SellOrders me)" for p
    using that assms(1) by (auto simp add: engine_ok_def)
  then show ?thesis using assms(2) by (auto simp add: all_positive_def new_Order_def)
qed

lemma processOrders_range_all_positive:
  assumes "all_positive me" "\<forall>x \<in> set xs. 0 <s Amount (memory me x)"
  shows "all_positive (processOrders_range xs me)"
  using assms
proof (induction xs arbitrary: me)
  case Nil
  then show ?case by simp
next
  case (Cons x xs)
  have "all_positive (addOrderInternal me x)"
    using Cons(2,3) by (simp add: addOrderInternal_all_positive)
  moreover have "\<forall>y \<in> set xs. 0 <s Amount (memory (addOrderInternal me x) y)"
    using Cons(3) logical_fields [OF addOrderInternal_logical [of me x]] by simp
  ultimately show ?case using Cons(1) by simp
qed

lemma PostOrders_all_positive:
  assumes "engine_ok me" "orderChannel me = []" "all_positive me"
    and "\<forall>v. body = Some v \<longrightarrow> 0 <s Amount v"
  shows "all_positive (processOrders (snd (AddOrderHandler me body)))"
proof (cases body)
  case None
  then show ?thesis
    using assms(2,3) by (simp add: processOrders_def all_positive_def)
next
  case (Some v)
  let ?me = "me\<lparr>memory := (memory me)(brk me := v), brk := Suc (brk me), orderChannel := []\<rparr>"
  have "all_positive (snd (new_Order me v))" using new_Order_all_positive [OF assms(1,3)] .
  then have "all_positive ?me" by (simp add: all_positive_def new_Order_def)
  moreover have "0 <s Amount (memory ?me (brk me))" using assms(4) Some by simp
  ultimately have "all_positive (processOrders_range [brk me] ?me)"
    by (intro processOrders_range_all_positive) simp_all
  then show ?thesis using Some assms(2) by (simp add: AddOrderHandler_Some processOrders_def)
qed

lemma MatchOrders_all_positive:
  assumes "engine_ok me" "all_positive me"
  shows "\<exists>w. MatchOrders me = Some (Inr w) \<and> engine_ok (eng w) \<and> all_positive (eng w) \<and>
           orderChannel (eng w) = orderChannel me"
proof -
  obtain w where w: "MatchOrders me = Some (Inr w)"
    and k: "kept \<lparr>eng = me, matchesFound = 0, iterationCount = 0, matches = []\<rparr> w"
    using MatchOrders_kept [OF engine_ok_no_shared [OF assms(1)]] by blast
  have "engine_ok (eng w)" using MatchOrders_engine_ok [OF assms(1)] w by simp
  then show ?thesis using w k assms(2) by (simp add: kept_def)
qed

lemma GetHighest_props:
  "BuyOrders (snd (GetHighestBuyOrder me)) = BuyOrders me"
  "SellOrders (snd (GetHighestBuyOrder me)) = SellOrders me"
  "orderChannel (snd (GetHighestBuyOrder me)) = orderChannel me"
  "BuyOrders (snd (GetHighestSellOrder me)) = BuyOrders me"
  "SellOrders (snd (GetHighestSellOrder me)) = SellOrders me"
  "orderChannel (snd (GetHighestSellOrder me)) = orderChannel me"
  "p < brk me \<Longrightarrow> memory (snd (GetHighestBuyOrder me)) p = memory me p"
  "p < brk me \<Longrightarrow> memory (snd (GetHighestSellOrder me)) p = memory me p"
  "brk me \<le> brk (snd (GetHighestBuyOrder me))"
  "brk me \<le> brk (snd (GetHighestSellOrder me))"
  by (simp_all add: GetHighestBuyOrder_eq GetHighestSellOrder_eq new_Order_def)

lemma GetHighest_all_positive:
  assumes "engine_ok me" "all_positive me"
  shows "all_positive (snd (GetHighestBuyOrder me))" "all_positive (snd (GetHighestSellOrder me))"
  using assms new_Order_all_positive [OF assms]
  by (simp_all add: GetHighestBuyOrder_eq GetHighestSellOrder_eq)

text \<open>
  C3 fails on the code: nothing checks the amount of a submitted order. An order posted
  with amount zero is inserted and rests in its book.
\<close>

theorem zero_amount_rests_in_book_counterexample:
  "(case run start [PostOrders (Some (order_of 1 ''SELL'' 100 0))] of
      Some (Inr ss) \<Rightarrow>
        SellOrders (core ss) = [0] \<and> Amount (memory (core ss) 0) = 0 \<and>
        \<not> all_positive (core ss)
    | _ \<Rightarrow> False)"
  by code_simp

text \<open>
  C3 as the code has it. If every posted order has a positive amount, then after every
  sequence of posted orders, sweeps and queries every order in either book has a positive
  amount. The sweep keeps this by itself: an order that rests in a book after a pass either
  has the amount it had before the pass or a positive one, so an order that a trade leaves
  at zero is dropped and not pushed back. And \<^verbatim>\<open>addOrderInternal\<close> keeps it exactly when the
  order it is given has a positive amount.
\<close>

theorem positive_amounts_are_kept:
  assumes "\<forall>v. PostOrders (Some v) \<in> set rs \<longrightarrow> 0 <s Amount v"
  shows "(\<exists>ss. run start rs = Some (Inr ss) \<and> all_positive (core ss)) \<and>
         (\<forall>w. no_shared (eng w) \<longrightarrow>
              (\<exists>w' c. MatchOrders_iter w = Inr (w', c) \<and>
                 (\<forall>p \<in> set (BuyOrders (eng w')) \<union> set (SellOrders (eng w')).
                     Amount (memory (eng w') p) = Amount (memory (eng w) p) \<or>
                     0 <s Amount (memory (eng w') p)))) \<and>
         (\<forall>me x. all_positive me \<longrightarrow>
              all_positive (addOrderInternal me x) = (0 <s Amount (memory me x)))"
proof (intro conjI allI impI)
  show "\<exists>ss. run start rs = Some (Inr ss) \<and> all_positive (core ss)"
  proof -
    have "\<exists>ss. run start rs = Some (Inr ss) \<and>
        (engine_ok (core ss) \<and> orderChannel (core ss) = [] \<and> all_positive (core ss))"
    proof (rule run_rule)
      show "engine_ok (core start) \<and> orderChannel (core start) = [] \<and> all_positive (core start)"
        by (simp add: start_def engine_ok_New) (simp add: NewMatchingEngine_def all_positive_def)
    next
      fix ss :: server and r :: request
      assume J: "engine_ok (core ss) \<and> orderChannel (core ss) = [] \<and> all_positive (core ss)"
        and r: "r \<in> set rs"
      show "\<exists>ss'. serve ss r = Some (Inr ss') \<and>
          (engine_ok (core ss') \<and> orderChannel (core ss') = [] \<and> all_positive (core ss'))"
      proof (cases r)
        case (PostOrders body)
        have "\<forall>v. body = Some v \<longrightarrow> 0 <s Amount v" using assms r PostOrders by auto
        then have "all_positive (processOrders (snd (AddOrderHandler (core ss) body)))"
          using J by (intro PostOrders_all_positive) simp_all
        then show ?thesis
          using PostOrders processOrders_engine_ok(1,2) [OF AddOrderHandler_engine_ok, of "core ss" body] J
          by simp
      next
        case MatcherTick
        then show ?thesis using MatchOrders_all_positive [of "core ss"] J by auto
      next
        case GetHighestBuy
        then show ?thesis
          using GetHighest_engine_ok(1) [of "core ss"] GetHighest_all_positive(1) [of "core ss"] J
          by (simp add: GetHighest_props)
      next
        case GetHighestSell
        then show ?thesis
          using GetHighest_engine_ok(2) [of "core ss"] GetHighest_all_positive(2) [of "core ss"] J
          by (simp add: GetHighest_props)
      qed
    qed
    then show ?thesis by blast
  qed
next
  fix w :: sweep
  assume ns: "no_shared (eng w)"
  obtain w' c where it: "MatchOrders_iter w = Inr (w', c)" and pa: "pass w w' c"
    using iter_pass [OF ns] by blast
  show "\<exists>w' c. MatchOrders_iter w = Inr (w', c) \<and>
      (\<forall>p \<in> set (BuyOrders (eng w')) \<union> set (SellOrders (eng w')).
          Amount (memory (eng w') p) = Amount (memory (eng w) p) \<or> 0 <s Amount (memory (eng w') p))"
    using it pass_resting [OF pa ns] by blast
next
  fix me x
  assume ap: "all_positive me"
  have am: "Amount (memory (addOrderInternal me x) p) = Amount (memory me p)" for p
    using logical_fields [OF addOrderInternal_logical [of me x p]] by simp
  show "all_positive (addOrderInternal me x) = (0 <s Amount (memory me x))"
    using ap addOrderInternal_books [of me x] unfolding all_positive_def am by auto
qed

theorem positive_amounts_are_kept_witness:
  "0 <s Amount (order_of 1 ''BUY'' 100 10) \<and> 0 <s Amount (order_of 2 ''SELL'' 100 3) \<and>
   (\<exists>ss. run start [PostOrders (Some (order_of 1 ''BUY'' 100 10)),
                     PostOrders (Some (order_of 2 ''SELL'' 100 3)), MatcherTick] = Some (Inr ss) \<and>
         all_positive (core ss) \<and>
         BuyOrders (core ss) = [0] \<and> Amount (memory (core ss) 0) = 7 \<and> SellOrders (core ss) = [])"
proof -
  let ?rs = "[PostOrders (Some (order_of 1 ''BUY'' 100 10)),
              PostOrders (Some (order_of 2 ''SELL'' 100 3)), MatcherTick]"
  have h: "\<forall>v. PostOrders (Some v) \<in> set ?rs \<longrightarrow> 0 <s Amount v"
    by (auto simp add: order_of_def word_sless_alt)
  have e: "(case run start ?rs of
             Some (Inr ss) \<Rightarrow> BuyOrders (core ss) = [0] \<and> Amount (memory (core ss) 0) = 7 \<and>
               SellOrders (core ss) = []
           | _ \<Rightarrow> False)"
    by code_simp
  have p: "0 <s Amount (order_of 1 ''BUY'' 100 10)" "0 <s Amount (order_of 2 ''SELL'' 100 3)"
    unfolding order_of_def by (simp_all add: word_sless_alt)
  show ?thesis
    using positive_amounts_are_kept [OF h, THEN conjunct1] e p by auto
qed

lemma serve_outside:
  assumes "engine_ok (core ss)" "outside (core ss) p"
  shows "\<exists>ss'. serve ss r = Some (Inr ss') \<and> engine_ok (core ss') \<and> outside (core ss') p \<and>
           memory (core ss') p = memory (core ss) p"
proof (cases r)
  case (PostOrders body)
  let ?me = "snd (AddOrderHandler (core ss) body)"
  have p: "p < brk (core ss)"
    "p \<notin> set (BuyOrders (core ss)) \<union> set (SellOrders (core ss)) \<union> set (orderChannel (core ss))"
    using assms(2) by (simp_all add: outside_def)
  have o: "outside ?me p" "memory ?me p = memory (core ss) p"
    using p by (cases body; simp add: AddOrderHandler_Some outside_def)+
  have "outside (processOrders ?me) p" "memory (processOrders ?me) p = memory ?me p"
    using o(1) by (auto simp add: outside_def processOrders_props)
  then show ?thesis
    using PostOrders o processOrders_engine_ok(1) [OF AddOrderHandler_engine_ok [OF assms(1), of body]]
    by simp
next
  case MatcherTick
  obtain w where w: "MatchOrders (core ss) = Some (Inr w)"
    and k: "kept \<lparr>eng = core ss, matchesFound = 0, iterationCount = 0, matches = []\<rparr> w"
    using MatchOrders_kept [OF engine_ok_no_shared [OF assms(1)]] by blast
  have "engine_ok (eng w)" using MatchOrders_engine_ok [OF assms(1)] w by simp
  moreover have "outside (eng w) p" "memory (eng w) p = memory (core ss) p"
    using k assms(2) unfolding kept_def outside_def by auto
  ultimately show ?thesis using MatcherTick w by simp
next
  case GetHighestBuy
  then show ?thesis
    using GetHighest_engine_ok(1) [OF assms(1)] assms(2) GetHighest_props(9) [of "core ss"]
    by (auto simp add: outside_def GetHighest_props(1-8))
next
  case GetHighestSell
  then show ?thesis
    using GetHighest_engine_ok(2) [OF assms(1)] assms(2) GetHighest_props(10) [of "core ss"]
    by (auto simp add: outside_def GetHighest_props(1-8))
qed

lemma run_outside:
  assumes "engine_ok (core ss)" "outside (core ss) p"
  shows "\<exists>ss'. run ss rs = Some (Inr ss') \<and> memory (core ss') p = memory (core ss) p"
proof -
  have "\<exists>ss'. run ss rs = Some (Inr ss') \<and>
      (engine_ok (core ss') \<and> outside (core ss') p \<and> memory (core ss') p = memory (core ss) p)"
  proof (rule run_rule)
    show "engine_ok (core ss) \<and> outside (core ss) p \<and> memory (core ss) p = memory (core ss) p"
      using assms by simp
  next
    fix s1 :: server and r :: request
    assume "engine_ok (core s1) \<and> outside (core s1) p \<and> memory (core s1) p = memory (core ss) p"
    then show "\<exists>ss'. serve s1 r = Some (Inr ss') \<and>
        (engine_ok (core ss') \<and> outside (core ss') p \<and> memory (core ss') p = memory (core ss) p)"
      using serve_outside [of s1 p r] by auto
  qed
  then show ?thesis by blast
qed

lemma new_Order_clone_of:
  assumes "engine_ok me"
  shows "clone_of me x (brk me) (snd (new_Order me (memory me x)))"
proof -
  let ?me = "snd (new_Order me (memory me x))"
  have ok: "engine_ok ?me" using new_Order_engine_ok [OF assms] .
  have fresh: "brk me \<notin> set (BuyOrders me) \<union> set (SellOrders me) \<union> set (orderChannel me)"
    using assms by (auto simp add: engine_ok_def)
  then have out: "outside ?me (brk me)" by (simp add: outside_def new_Order_def)
  have "\<exists>ss'. run ss rs = Some (Inr ss') \<and> memory (core ss') (brk me) = memory ?me (brk me)"
    if "core ss = ?me" for rs ss
    using run_outside [of ss "brk me" rs] ok out that by simp
  then show ?thesis
    unfolding clone_of_def using fresh by (simp add: new_Order_def)
qed

text \<open>
  C6. On an empty buy book \<^verbatim>\<open>GetHighestBuyOrder\<close> returns \<^verbatim>\<open>nil\<close> and changes nothing.
  Otherwise it returns a pointer to a fresh copy of the root order: the copy has the root's
  contents, the books, the channel and every other order are as before, and no later
  operation of the engine changes the copy. \<^verbatim>\<open>GetHighestSellOrder\<close> does the same on the sell
  book.
\<close>

theorem GetHighestOrder_returns_clone:
  assumes "engine_ok me"
  shows "(BuyOrders me = [] \<longrightarrow> GetHighestBuyOrder me = (None, me)) \<and>
         (BuyOrders me \<noteq> [] \<longrightarrow>
            (\<exists>p me'. GetHighestBuyOrder me = (Some p, me') \<and> clone_of me (BuyOrders me ! 0) p me')) \<and>
         (SellOrders me = [] \<longrightarrow> GetHighestSellOrder me = (None, me)) \<and>
         (SellOrders me \<noteq> [] \<longrightarrow>
            (\<exists>p me'. GetHighestSellOrder me = (Some p, me') \<and> clone_of me (SellOrders me ! 0) p me'))"
  using new_Order_clone_of [OF assms]
  by (simp add: GetHighestBuyOrder_eq GetHighestSellOrder_eq)


lemma engine_ok_crossed_engine: "engine_ok crossed_engine"
proof -
  have "idx_ok (memory crossed_engine, BuyOrders crossed_engine)"
    "idx_ok (memory crossed_engine, SellOrders crossed_engine)"
    by (simp_all add: idx_ok_def crossed_engine_def order_of_def less_Suc_eq)
  moreover have "heap_ord BuyHeap (memory crossed_engine, BuyOrders crossed_engine)"
    "heap_ord SellHeap (memory crossed_engine, SellOrders crossed_engine)"
    by (simp_all add: heap_ord_def heap_upto_def crossed_engine_def order_of_def less_Suc_eq)
  ultimately show ?thesis
    by (simp add: engine_ok_def books_ok_def two_ok_def) (simp add: crossed_engine_def)
qed

theorem GetHighestOrder_returns_clone_witness:
  "engine_ok crossed_engine \<and> BuyOrders crossed_engine \<noteq> [] \<and>
   (\<exists>me'. GetHighestBuyOrder crossed_engine = (Some 3, me') \<and>
          clone_of crossed_engine 0 3 me' \<and>
          memory me' 3 = order_of 1 ''BUY'' 105 4 \<and> BuyOrders me' = [0, 1]) \<and>
   (\<exists>ss. run \<lparr>core = crossed_engine, printed = [], accepted = []\<rparr> [GetHighestBuy, MatcherTick]
            = Some (Inr ss) \<and>
         memory (core ss) 3 = order_of 1 ''BUY'' 105 4 \<and> Amount (memory (core ss) 0) = 0)"
proof -
  have h: "engine_ok crossed_engine" by (rule engine_ok_crossed_engine)
  have b: "BuyOrders crossed_engine = [0, 1]" "brk crossed_engine = 3"
    "memory crossed_engine 0 = order_of 1 ''BUY'' 105 4"
    by (simp_all add: crossed_engine_def)
  have e: "(case run \<lparr>core = crossed_engine, printed = [], accepted = []\<rparr> [GetHighestBuy, MatcherTick] of
             Some (Inr ss) \<Rightarrow> memory (core ss) 3 = order_of 1 ''BUY'' 105 4 \<and>
               Amount (memory (core ss) 0) = 0
           | _ \<Rightarrow> False)"
    by code_simp
  have r: "\<exists>ss. run \<lparr>core = crossed_engine, printed = [], accepted = []\<rparr> [GetHighestBuy, MatcherTick]
            = Some (Inr ss) \<and>
         memory (core ss) 3 = order_of 1 ''BUY'' 105 4 \<and> Amount (memory (core ss) 0) = 0"
    using e by (auto split: option.splits sum.splits)
  have "\<exists>p me'. GetHighestBuyOrder crossed_engine = (Some p, me') \<and>
      clone_of crossed_engine (BuyOrders crossed_engine ! 0) p me'"
    using GetHighestOrder_returns_clone [OF h] b by simp
  then obtain p me' where g: "GetHighestBuyOrder crossed_engine = (Some p, me')"
    "clone_of crossed_engine 0 p me'"
    using b by auto
  then have "p = 3" "memory me' 3 = order_of 1 ''BUY'' 105 4" "BuyOrders me' = [0, 1]"
    using b by (auto simp add: GetHighestBuyOrder_eq new_Order_def)
  then show ?thesis using h b g r by auto
qed

lemma sint_diff_min_go:
  fixes x y :: "64 word"
  assumes "0 \<le>s x" "0 \<le>s y" "t = min_go x y"
  shows "sint (x - t) = sint x - sint t" "sint (y - t) = sint y - sint t"
    "0 \<le> sint (x - t)" "0 \<le> sint (y - t)" "0 \<le> sint t"
proof -
  have x: "0 \<le> sint x" and y: "0 \<le> sint y" using assms(1,2) by (simp_all add: word_sle_eq)
  have t: "sint t = min (sint x) (sint y)"
    using assms(3) by (simp add: min_go_def word_sless_alt min_def)
  have bx: "sint x < 2 ^ 63" and byy: "sint y < 2 ^ 63"
    using sint_lt [of x] sint_lt [of y] by simp_all
  show "0 \<le> sint t" using x y t by simp
  have "sint (x - t) = signed_take_bit 63 (sint x - sint t)"
    by (simp add: sint_word_diff)
  also have "\<dots> = sint x - sint t"
    using x y t bx by (intro signed_take_bit_int_eq_self) auto
  finally show 1: "sint (x - t) = sint x - sint t" .
  have "sint (y - t) = signed_take_bit 63 (sint y - sint t)"
    by (simp add: sint_word_diff)
  also have "\<dots> = sint y - sint t"
    using x y t byy by (intro signed_take_bit_int_eq_self) auto
  finally show 2: "sint (y - t) = sint y - sint t" .
  show "0 \<le> sint (x - t)" using 1 t by simp
  show "0 \<le> sint (y - t)" using 2 t by simp
qed


lemma set_mset_diff_distinct:
  assumes "distinct xs" "mset ys = mset xs - {#b#}"
  shows "set ys = set xs - {b}"
proof -
  have "b \<notin> set ys" using in_mset_diff_distinct [OF assms] .
  moreover have "set ys \<subseteq> set xs"
    using assms(2) by (metis in_diffD mset_eq_setD set_mset_mset subsetI)
  moreover have "x \<in> set ys" if "x \<in> set xs" "x \<noteq> b" for x
  proof -
    have "x \<in># mset xs - {#b#}" using that by (simp add: in_diff_count)
    then show ?thesis using assms(2) by (metis set_mset_mset)
  qed
  ultimately show ?thesis by auto
qed

lemma traded_append [simp]: "traded (ms @ ms') p = traded ms p + traded ms' p"
  by (simp add: traded_def)

lemma traded_single [simp]:
  "traded [m] p = (if buy_order m = p \<or> sell_order m = p then sint (quantity m) else 0)"
  by (simp add: traded_def)

lemma pass_conserves:
  assumes "pass v v' c" "no_shared (eng v)" "nonneg (eng v)"
  shows "traded (matches v') p + residual (eng v') p = traded (matches v) p + residual (eng v) p"
    and "nonneg (eng v')"
    and "set (matches v') \<subseteq> set (matches v) \<union>
           {m. buy_order m \<in> set (BuyOrders (eng v)) \<and> sell_order m \<in> set (SellOrders (eng v))}"
proof -
  define me where "me = eng v"
  define s where "s = memory me"
  define s' where "s' = memory (eng v')"
  define b where "b = BuyOrders me ! 0"
  define a where "a = SellOrders me ! 0"
  define t where "t = min_go (Amount (s b)) (Amount (s a))"
  define crossing where
    "crossing \<longleftrightarrow> BuyOrders me \<noteq> [] \<and> SellOrders me \<noteq> [] \<and> Price (s a) \<le> Price (s b)"
  have am: "Amount (s' q) = (if crossing \<and> (q = b \<or> q = a) then Amount (s q) - t else Amount (s q))"
    and mb: "mset (BuyOrders (eng v')) =
      (if crossing \<and> \<not> 0 <s Amount (s b) - t then mset (BuyOrders me) - {#b#} else mset (BuyOrders me))"
    and ms: "mset (SellOrders (eng v')) =
      (if crossing \<and> \<not> 0 <s Amount (s a) - t then mset (SellOrders me) - {#a#} else mset (SellOrders me))"
    and mm: "matches v' =
      (if crossing then matches v @ [\<lparr>buy_order = b, sell_order = a, buy_price = Price (s b),
                                           sell_price = Price (s a), quantity = t\<rparr>] else matches v)"
    for q
    using assms(1) unfolding pass_def Let_def me_def s_def s'_def b_def a_def t_def crossing_def
    by simp_all
  have d: "distinct (BuyOrders me)" "distinct (SellOrders me)"
    "set (BuyOrders me) \<inter> set (SellOrders me) = {}"
    using assms(2) by (simp_all add: no_shared_def me_def)
  have sb: "set (BuyOrders (eng v')) =
      (if crossing \<and> \<not> 0 <s Amount (s b) - t then set (BuyOrders me) - {b} else set (BuyOrders me))"
    using mb set_mset_diff_distinct [OF d(1), of "BuyOrders (eng v')" b] mset_eq_setD [of "BuyOrders (eng v')" "BuyOrders me"]
    by (auto split: if_splits)
  have ss: "set (SellOrders (eng v')) =
      (if crossing \<and> \<not> 0 <s Amount (s a) - t then set (SellOrders me) - {a} else set (SellOrders me))"
    using ms set_mset_diff_distinct [OF d(2), of "SellOrders (eng v')" a] mset_eq_setD [of "SellOrders (eng v')" "SellOrders me"]
    by (auto split: if_splits)
  have nn: "0 \<le>s Amount (s q)" if "q \<in> set (BuyOrders me) \<union> set (SellOrders me)" for q
    using assms(3) that by (simp add: nonneg_def me_def s_def)
  show "set (matches v') \<subseteq> set (matches v) \<union>
           {m. buy_order m \<in> set (BuyOrders (eng v)) \<and> sell_order m \<in> set (SellOrders (eng v))}"
    using mm by (auto simp add: crossing_def b_def a_def me_def)
  show "traded (matches v') p + residual (eng v') p = traded (matches v) p + residual (eng v) p"
    and "nonneg (eng v')"
  proof -
    consider (quiet) "\<not> crossing" | (trade) crossing by blast
    then have "(traded (matches v') p + residual (eng v') p = traded (matches v) p + residual (eng v) p)
        \<and> nonneg (eng v')"
    proof cases
      case quiet
      then have "residual (eng v') q = residual (eng v) q" for q
        using am [of q] sb ss by (simp add: residual_def s_def s'_def me_def)
      moreover have "nonneg (eng v')"
        using assms(3) quiet am sb ss unfolding nonneg_def by (simp add: s_def s'_def me_def)
      ultimately show ?thesis using mm quiet by simp
    next
      case trade
      then have bin: "b \<in> set (BuyOrders me)" and ain: "a \<in> set (SellOrders me)"
        by (simp_all add: crossing_def b_def a_def)
      then have ab: "a \<noteq> b" and bs: "b \<notin> set (SellOrders me)" and ab': "a \<notin> set (BuyOrders me)"
        using d(3) by auto
      have nb: "0 \<le>s Amount (s b)" and na: "0 \<le>s Amount (s a)"
        using nn [of b] nn [of a] bin ain by simp_all
      note w = sint_diff_min_go [OF nb na t_def]
      have zb: "sint (Amount (s b)) - sint t = 0" if "\<not> 0 <s Amount (s b) - t"
        using that w(1,3) by (simp add: word_sless_alt)
      have za: "sint (Amount (s a)) - sint t = 0" if "\<not> 0 <s Amount (s a) - t"
        using that w(2,4) by (simp add: word_sless_alt)
      have rb: "residual (eng v') b = residual (eng v) b - sint t"
        using trade am [of b] sb ss bin bs w(1) zb
        by (auto simp add: residual_def s_def s'_def me_def)
      have ra: "residual (eng v') a = residual (eng v) a - sint t"
        using trade am [of a] sb ss ain ab' w(2) za
        by (auto simp add: residual_def s_def s'_def me_def)
      have ro: "residual (eng v') q = residual (eng v) q" if "q \<noteq> a" "q \<noteq> b" for q
        using trade am [of q] sb ss that by (auto simp add: residual_def s_def s'_def me_def)
      have c1: "traded (matches v') p + residual (eng v') p = traded (matches v) p + residual (eng v) p"
        using mm trade rb ra ro [of p] ab by (cases "p = a"; cases "p = b") auto
      have "0 \<le>s Amount (s' q)" if q: "q \<in> set (BuyOrders (eng v')) \<union> set (SellOrders (eng v'))" for q
      proof -
        have qin: "q \<in> set (BuyOrders me) \<union> set (SellOrders me)"
          using q sb ss by (auto split: if_splits)
        show ?thesis
        proof (cases "q = a \<or> q = b")
          case False
          then show ?thesis using am [of q] nn [OF qin] by auto
        next
          case True
          then show ?thesis using am [of q] trade w(3,4) by (auto simp add: word_sle_eq)
        qed
      qed
      then have "nonneg (eng v')" by (simp add: nonneg_def s'_def)
      then show ?thesis using c1 by simp
    qed
    then show "traded (matches v') p + residual (eng v') p = traded (matches v) p + residual (eng v) p"
      and "nonneg (eng v')" by simp_all
  qed
qed


lemma MatchOrders_conserves:
  assumes "no_shared me" "nonneg me"
  shows "\<exists>w. MatchOrders me = Some (Inr w) \<and>
           kept \<lparr>eng = me, matchesFound = 0, iterationCount = 0, matches = []\<rparr> w \<and>
           nonneg (eng w) \<and>
           (\<forall>p. traded (matches w) p + residual (eng w) p = residual me p) \<and>
           (\<forall>m \<in> set (matches w). buy_order m \<in> set (BuyOrders me) \<and> sell_order m \<in> set (SellOrders me))"
proof -
  let ?w0 = "\<lparr>eng = me, matchesFound = 0, iterationCount = 0, matches = []\<rparr>"
  let ?I = "\<lambda>v. kept ?w0 v \<and> nonneg (eng v) \<and>
      (\<forall>p. traded (matches v) p + residual (eng v) p = residual me p) \<and>
      (\<forall>m \<in> set (matches v). buy_order m \<in> set (BuyOrders me) \<and> sell_order m \<in> set (SellOrders me))"
  have "\<exists>w. MatchOrders_loop ?w0 = Some (Inr w) \<and> ?I w"
  proof (rule loop_inv [where I = ?I])
    show "no_shared (eng ?w0)" using assms(1) by simp
    show "?I ?w0" using assms by (simp add: kept_def traded_def)
  next
    fix v v' :: sweep and c
    assume ns: "no_shared (eng v)" and I: "?I v" and pa: "pass v v' c"
      and bk: "books_ok (eng v) \<longrightarrow> books_ok (eng v')"
    have k: "kept ?w0 v" and nn: "nonneg (eng v)" using I by simp_all
    note pc = pass_conserves [OF pa ns nn]
    have "kept ?w0 v'" using kept_pass [OF k pa bk] .
    moreover have "nonneg (eng v')" using pc(2) .
    moreover have "traded (matches v') p + residual (eng v') p = residual me p" for p
      using pc(1) [of p] I by simp
    moreover have "buy_order m \<in> set (BuyOrders me) \<and> sell_order m \<in> set (SellOrders me)"
      if "m \<in> set (matches v')" for m
    proof (cases "m \<in> set (matches v)")
      case True
      then show ?thesis using I by simp
    next
      case False
      then have "buy_order m \<in> set (BuyOrders (eng v)) \<and> sell_order m \<in> set (SellOrders (eng v))"
        using pc(3) that by auto
      then show ?thesis using k by (auto simp add: kept_def)
    qed
    ultimately show "?I v'" by simp
  qed
  then show ?thesis by (simp add: MatchOrders_def)
qed


lemma traded_zero:
  "(\<And>m. m \<in> set ms \<Longrightarrow> buy_order m \<noteq> p \<and> sell_order m \<noteq> p) \<Longrightarrow> traded ms p = 0"
  by (induction ms) (simp_all add: traded_def)

lemma processOrders_idle: "orderChannel me = [] \<Longrightarrow> processOrders me = me"
  by (cases me) (simp add: processOrders_def)

lemma PostOrders_Some_props:
  fixes me :: MatchingEngine and v :: Order
  assumes "orderChannel me = []"
  defines "me2 \<equiv> processOrders (snd (AddOrderHandler me (Some v)))"
  shows "set (BuyOrders me2) =
           (if Type v = ''BUY'' then insert (brk me) (set (BuyOrders me)) else set (BuyOrders me))"
    "set (SellOrders me2) =
           (if Type v = ''BUY'' then set (SellOrders me) else insert (brk me) (set (SellOrders me)))"
    "Amount (memory me2 p) = (if p = brk me then Amount v else Amount (memory me p))"
    "brk me2 = Suc (brk me)"
proof -
  define me1 where
    "me1 = me\<lparr>memory := (memory me)(brk me := v), brk := Suc (brk me), orderChannel := []\<rparr>"
  have me2: "me2 = addOrderInternal me1 (brk me)"
    using assms(1) by (simp add: me2_def AddOrderHandler_Some processOrders_def me1_def)
  have ty: "Type (memory me1 (brk me)) = Type v" by (simp add: me1_def)
  show "set (BuyOrders me2) =
           (if Type v = ''BUY'' then insert (brk me) (set (BuyOrders me)) else set (BuyOrders me))"
    "set (SellOrders me2) =
           (if Type v = ''BUY'' then set (SellOrders me) else insert (brk me) (set (SellOrders me)))"
    using ty unfolding me2
    by (cases "Type v = ''BUY''"; simp add: addOrderInternal_buy addOrderInternal_sell, simp add: me1_def)+
  have "Amount (memory me2 p) = Amount (memory me1 p)"
    unfolding me2 using logical_fields [OF addOrderInternal_logical [of me1 "brk me" p]] by simp
  then show "Amount (memory me2 p) = (if p = brk me then Amount v else Amount (memory me p))"
    by (simp add: me1_def)
  show "brk me2 = Suc (brk me)" by (simp add: me2 me1_def)
qed


lemma ledger_ok_query:
  assumes "ledger_ok ss"
    and bk: "BuyOrders me' = BuyOrders (core ss)" "SellOrders me' = SellOrders (core ss)"
      "orderChannel me' = orderChannel (core ss)"
    and mem: "\<And>p. p < brk (core ss) \<Longrightarrow> memory me' p = memory (core ss) p"
    and br: "brk (core ss) \<le> brk me'" and ok: "engine_ok me'"
  shows "ledger_ok (ss\<lparr>core := me'\<rparr>)"
proof -
  have al: "p < brk (core ss)" if "p \<in> set (BuyOrders (core ss)) \<union> set (SellOrders (core ss))" for p
    using assms(1) that by (auto simp add: ledger_ok_def engine_ok_def)
  have res: "residual me' p = residual (core ss) p" for p
    using al [of p] mem [of p] bk by (auto simp add: residual_def)
  have "nonneg me'"
    using assms(1) al mem bk unfolding ledger_ok_def nonneg_def by auto
  then show ?thesis
    using assms(1) bk ok br unfolding ledger_ok_def by (auto simp add: res)
qed

lemma ledger_ok_sweep:
  assumes "ledger_ok ss"
  shows "\<exists>w. MatchOrders (core ss) = Some (Inr w) \<and>
           ledger_ok (ss\<lparr>core := eng w, printed := printed ss @ matches w\<rparr>)"
proof -
  let ?me = "core ss"
  have ok: "engine_ok ?me" and nn: "nonneg ?me" using assms by (simp_all add: ledger_ok_def)
  obtain w where w: "MatchOrders ?me = Some (Inr w)"
    and k: "kept \<lparr>eng = ?me, matchesFound = 0, iterationCount = 0, matches = []\<rparr> w"
    and nw: "nonneg (eng w)"
    and cons: "\<And>p. traded (matches w) p + residual (eng w) p = residual ?me p"
    and inb: "\<And>m. m \<in> set (matches w) \<Longrightarrow>
        buy_order m \<in> set (BuyOrders ?me) \<and> sell_order m \<in> set (SellOrders ?me)"
    using MatchOrders_conserves [OF engine_ok_no_shared [OF ok] nn] by blast
  have okw: "engine_ok (eng w)" using MatchOrders_engine_ok [OF ok] w by simp
  have kk: "set (BuyOrders (eng w)) \<subseteq> set (BuyOrders ?me)"
    "set (SellOrders (eng w)) \<subseteq> set (SellOrders ?me)"
    "brk (eng w) = brk ?me" "orderChannel (eng w) = orderChannel ?me"
    using k by (simp_all add: kept_def)
  have c2: "traded (printed ss @ matches w) p + residual (eng w) p = sint (Amount v)"
    if "(p, v) \<in> set (accepted ss)" for p v
    using cons [of p] that assms by (auto simp add: ledger_ok_def)
  have "ledger_ok (ss\<lparr>core := eng w, printed := printed ss @ matches w\<rparr>)"
    unfolding ledger_ok_def
  proof (intro conjI)
    show "engine_ok (core (ss\<lparr>core := eng w, printed := printed ss @ matches w\<rparr>))" using okw by simp
    show "orderChannel (core (ss\<lparr>core := eng w, printed := printed ss @ matches w\<rparr>)) = []"
      using kk(4) assms by (simp add: ledger_ok_def)
    show "nonneg (core (ss\<lparr>core := eng w, printed := printed ss @ matches w\<rparr>))" using nw by simp
    show "distinct (map fst (accepted (ss\<lparr>core := eng w, printed := printed ss @ matches w\<rparr>)))"
      using assms by (simp add: ledger_ok_def)
    show "\<forall>(p, v) \<in> set (accepted (ss\<lparr>core := eng w, printed := printed ss @ matches w\<rparr>)).
        p < brk (core (ss\<lparr>core := eng w, printed := printed ss @ matches w\<rparr>)) \<and>
        traded (printed (ss\<lparr>core := eng w, printed := printed ss @ matches w\<rparr>)) p +
          residual (core (ss\<lparr>core := eng w, printed := printed ss @ matches w\<rparr>)) p = sint (Amount v)"
      using c2 kk(3) assms by (auto simp add: ledger_ok_def simp del: traded_append)
    show "\<forall>p \<in> set (BuyOrders (core (ss\<lparr>core := eng w, printed := printed ss @ matches w\<rparr>))).
        \<exists>v. (p, v) \<in> set (accepted (ss\<lparr>core := eng w, printed := printed ss @ matches w\<rparr>)) \<and> Type v = ''BUY''"
      using kk(1) assms by (auto simp add: ledger_ok_def)
    show "\<forall>p \<in> set (SellOrders (core (ss\<lparr>core := eng w, printed := printed ss @ matches w\<rparr>))).
        \<exists>v. (p, v) \<in> set (accepted (ss\<lparr>core := eng w, printed := printed ss @ matches w\<rparr>)) \<and> Type v \<noteq> ''BUY''"
      using kk(2) assms by (auto simp add: ledger_ok_def)
    show "\<forall>m \<in> set (printed (ss\<lparr>core := eng w, printed := printed ss @ matches w\<rparr>)).
        (\<exists>v. (buy_order m, v) \<in> set (accepted (ss\<lparr>core := eng w, printed := printed ss @ matches w\<rparr>)) \<and> Type v = ''BUY'') \<and>
        (\<exists>v. (sell_order m, v) \<in> set (accepted (ss\<lparr>core := eng w, printed := printed ss @ matches w\<rparr>)) \<and> Type v \<noteq> ''BUY'')"
      using inb assms by (auto simp add: ledger_ok_def)
  qed
  then show ?thesis using w by blast
qed


lemma ledger_ok_post:
  assumes "ledger_ok ss" "0 \<le>s Amount v"
  shows "ledger_ok (ss\<lparr>core := processOrders (snd (AddOrderHandler (core ss) (Some v))),
                       accepted := accepted ss @ [(brk (core ss), v)]\<rparr>)"
proof -
  define me where "me = core ss"
  define a where "a = brk me"
  define me2 where "me2 = processOrders (snd (AddOrderHandler me (Some v)))"
  define acc where "acc = accepted ss"
  have ok: "engine_ok me" and ch: "orderChannel me = []" and nn: "nonneg me"
    and di: "distinct (map fst acc)"
    and al: "\<And>p u. (p, u) \<in> set acc \<Longrightarrow> p < a"
    and co: "\<And>p u. (p, u) \<in> set acc \<Longrightarrow> traded (printed ss) p + residual me p = sint (Amount u)"
    and bu: "\<And>p. p \<in> set (BuyOrders me) \<Longrightarrow> \<exists>u. (p, u) \<in> set acc \<and> Type u = ''BUY''"
    and se: "\<And>p. p \<in> set (SellOrders me) \<Longrightarrow> \<exists>u. (p, u) \<in> set acc \<and> Type u \<noteq> ''BUY''"
    and pr: "\<And>m. m \<in> set (printed ss) \<Longrightarrow>
        (\<exists>u. (buy_order m, u) \<in> set acc \<and> Type u = ''BUY'') \<and>
        (\<exists>u. (sell_order m, u) \<in> set acc \<and> Type u \<noteq> ''BUY'')"
    using assms(1) unfolding ledger_ok_def me_def a_def acc_def by auto
  note P = PostOrders_Some_props [OF ch, of v, folded me2_def a_def]
  have ok2: "engine_ok me2" and ch2: "orderChannel me2 = []"
    unfolding me2_def
    using processOrders_engine_ok(1) [OF AddOrderHandler_engine_ok [OF ok, of "Some v"]]
    by (simp_all add: processOrders_props)
  have fresh: "a \<notin> set (BuyOrders me) \<union> set (SellOrders me)"
    using ok by (auto simp add: engine_ok_def a_def)
  have afst: "a \<notin> fst ` set acc" using al by force
  have books2: "set (BuyOrders me2) \<union> set (SellOrders me2) = insert a (set (BuyOrders me) \<union> set (SellOrders me))"
    using P(1,2) by auto
  have res_a: "residual me2 a = sint (Amount v)"
    using books2 P(3) [of a] by (simp add: residual_def)
  have res_o: "residual me2 p = residual me p" if "p \<noteq> a" for p
    using books2 P(3) [of p] that by (simp add: residual_def)
  have tr_a: "traded (printed ss) a = 0"
  proof (rule traded_zero)
    fix m assume "m \<in> set (printed ss)"
    then show "buy_order m \<noteq> a \<and> sell_order m \<noteq> a" using pr [of m] al by blast
  qed
  have nn2: "nonneg me2"
    unfolding nonneg_def
  proof
    fix p assume "p \<in> set (BuyOrders me2) \<union> set (SellOrders me2)"
    then have "p = a \<or> p \<in> set (BuyOrders me) \<union> set (SellOrders me)" using books2 by auto
    then show "0 \<le>s Amount (memory me2 p)"
      using P(3) [of p] assms(2) nn by (auto simp add: nonneg_def)
  qed
  have "ledger_ok (ss\<lparr>core := me2, accepted := acc @ [(a, v)]\<rparr>)"
    unfolding ledger_ok_def
  proof (intro conjI)
    show "engine_ok (core (ss\<lparr>core := me2, accepted := acc @ [(a, v)]\<rparr>))" using ok2 by simp
    show "orderChannel (core (ss\<lparr>core := me2, accepted := acc @ [(a, v)]\<rparr>)) = []" using ch2 by simp
    show "nonneg (core (ss\<lparr>core := me2, accepted := acc @ [(a, v)]\<rparr>))" using nn2 by simp
    show "distinct (map fst (accepted (ss\<lparr>core := me2, accepted := acc @ [(a, v)]\<rparr>)))"
      using di afst by simp
    show "\<forall>(p, u) \<in> set (accepted (ss\<lparr>core := me2, accepted := acc @ [(a, v)]\<rparr>)).
        p < brk (core (ss\<lparr>core := me2, accepted := acc @ [(a, v)]\<rparr>)) \<and>
        traded (printed (ss\<lparr>core := me2, accepted := acc @ [(a, v)]\<rparr>)) p +
          residual (core (ss\<lparr>core := me2, accepted := acc @ [(a, v)]\<rparr>)) p = sint (Amount u)"
    proof (clarsimp simp add: P(4), intro conjI allI impI)
      show "traded (printed ss) a + residual me2 a = sint (Amount v)" using tr_a res_a by simp
    next
      show "\<forall>x \<in> set acc. case x of (p, u) \<Rightarrow>
          p < Suc a \<and> traded (printed ss) p + residual me2 p = sint (Amount u)"
      proof (clarify)
        fix p u assume pu: "(p, u) \<in> set acc"
        then have "p \<noteq> a" using al [OF pu] by simp
        then show "p < Suc a \<and> traded (printed ss) p + residual me2 p = sint (Amount u)"
          using al [OF pu] co [OF pu] res_o [of p] by simp
      qed
    qed
    show "\<forall>p \<in> set (BuyOrders (core (ss\<lparr>core := me2, accepted := acc @ [(a, v)]\<rparr>))).
        \<exists>u. (p, u) \<in> set (accepted (ss\<lparr>core := me2, accepted := acc @ [(a, v)]\<rparr>)) \<and> Type u = ''BUY''"
      using P(1) bu by (auto split: if_splits)
    show "\<forall>p \<in> set (SellOrders (core (ss\<lparr>core := me2, accepted := acc @ [(a, v)]\<rparr>))).
        \<exists>u. (p, u) \<in> set (accepted (ss\<lparr>core := me2, accepted := acc @ [(a, v)]\<rparr>)) \<and> Type u \<noteq> ''BUY''"
      using P(2) se by (auto split: if_splits)
    show "\<forall>m \<in> set (printed (ss\<lparr>core := me2, accepted := acc @ [(a, v)]\<rparr>)).
        (\<exists>u. (buy_order m, u) \<in> set (accepted (ss\<lparr>core := me2, accepted := acc @ [(a, v)]\<rparr>)) \<and> Type u = ''BUY'') \<and>
        (\<exists>u. (sell_order m, u) \<in> set (accepted (ss\<lparr>core := me2, accepted := acc @ [(a, v)]\<rparr>)) \<and> Type u \<noteq> ''BUY'')"
      using pr by auto
  qed
  then show ?thesis by (simp add: me2_def me_def a_def acc_def)
qed

lemma serve_ledger_ok:
  assumes "ledger_ok ss" "\<forall>v. r = PostOrders (Some v) \<longrightarrow> 0 \<le>s Amount v"
  shows "\<exists>ss'. serve ss r = Some (Inr ss') \<and> ledger_ok ss'"
proof (cases r)
  case (PostOrders body)
  show ?thesis
  proof (cases body)
    case None
    have "orderChannel (core ss) = []" using assms(1) by (simp add: ledger_ok_def)
    then have "ss\<lparr>core := processOrders (core ss), accepted := accepted ss\<rparr> = ss"
      by (cases ss) (simp add: processOrders_idle)
    then show ?thesis using PostOrders None assms(1) by simp
  next
    case (Some v)
    then have "0 \<le>s Amount v" using assms(2) PostOrders by simp
    then show ?thesis using ledger_ok_post [OF assms(1)] PostOrders Some by simp
  qed
next
  case MatcherTick
  then show ?thesis using ledger_ok_sweep [OF assms(1)] by auto
next
  case GetHighestBuy
  have "engine_ok (core ss)" using assms(1) by (simp add: ledger_ok_def)
  then have "ledger_ok (ss\<lparr>core := snd (GetHighestBuyOrder (core ss))\<rparr>)"
    by (intro ledger_ok_query [OF assms(1)]) (simp_all add: GetHighest_props GetHighest_engine_ok)
  then show ?thesis using GetHighestBuy by simp
next
  case GetHighestSell
  have "engine_ok (core ss)" using assms(1) by (simp add: ledger_ok_def)
  then have "ledger_ok (ss\<lparr>core := snd (GetHighestSellOrder (core ss))\<rparr>)"
    by (intro ledger_ok_query [OF assms(1)]) (simp_all add: GetHighest_props GetHighest_engine_ok)
  then show ?thesis using GetHighestSell by simp
qed


lemma sum_list_pick:
  fixes f :: "'b \<Rightarrow> int"
  assumes "distinct (map fst acc)" "(x, u) \<in> set acc"
  shows "(\<Sum>(p, v)\<leftarrow>acc. if p = x then f v else 0) = f u"
  using assms
proof (induction acc)
  case Nil
  then show ?case by simp
next
  case (Cons e acc)
  obtain p v where e: "e = (p, v)" by (cases e)
  show ?case
  proof (cases "p = x")
    case True
    then have "x \<notin> fst ` set acc" using Cons(2) e by simp
    then have z: "(\<Sum>(p, v)\<leftarrow>acc. if p = x then f v else 0) = 0"
      by (induction acc) (auto simp add: image_iff)
    have "v = u" using Cons(2,3) e True by (auto simp add: image_iff)
    then show ?thesis using e True z by simp
  next
    case False
    then have "(x, u) \<in> set acc" using Cons(3) e by auto
    then show ?thesis using Cons(1,2) e False by simp
  qed
qed

lemma side_total:
  fixes P :: "Order \<Rightarrow> bool"
  assumes "distinct (map fst acc)"
    and "\<And>m. m \<in> set ms \<Longrightarrow>
        (\<exists>v. (buy_order m, v) \<in> set acc \<and> P v) \<and> (\<exists>v. (sell_order m, v) \<in> set acc \<and> \<not> P v)"
  shows "(\<Sum>(p, v)\<leftarrow>acc. if P v then traded ms p else 0) = (\<Sum>m\<leftarrow>ms. sint (quantity m)) \<and>
         (\<Sum>(p, v)\<leftarrow>acc. if \<not> P v then traded ms p else 0) = (\<Sum>m\<leftarrow>ms. sint (quantity m))"
  using assms(2)
proof (induction ms)
  case Nil
  have "(\<Sum>(p, v)\<leftarrow>acc. if P v then traded [] p else 0) = 0"
    "(\<Sum>(p, v)\<leftarrow>acc. if \<not> P v then traded [] p else 0) = 0"
    by (induction acc) (auto simp add: traded_def)
  then show ?case by simp
next
  case (Cons m ms)
  define q where "q = sint (quantity m)"
  obtain vb va where vb: "(buy_order m, vb) \<in> set acc" "P vb"
    and va: "(sell_order m, va) \<in> set acc" "\<not> P va"
    using Cons(2) [of m] by auto
  have ih: "(\<Sum>(p, v)\<leftarrow>acc. if P v then traded ms p else 0) = (\<Sum>m\<leftarrow>ms. sint (quantity m))"
    "(\<Sum>(p, v)\<leftarrow>acc. if \<not> P v then traded ms p else 0) = (\<Sum>m\<leftarrow>ms. sint (quantity m))"
    using Cons(1) Cons(2) by simp_all
  have ne: "sell_order m \<noteq> buy_order m"
    using vb va map_of_is_SomeI [OF assms(1)] by (metis option.inject)
  have tr: "traded (m # ms) p =
      (if p = buy_order m then q else 0) + (if p = sell_order m then q else 0) + traded ms p" for p
    using ne by (auto simp add: traded_def q_def)
  have pb: "(\<Sum>(p, v)\<leftarrow>acc. if p = buy_order m then (if P v then q else 0) else 0) = q"
    using sum_list_pick [OF assms(1) vb(1), of "\<lambda>v. if P v then q else 0"] vb(2) by simp
  have pa: "(\<Sum>(p, v)\<leftarrow>acc. if p = sell_order m then (if P v then q else 0) else 0) = 0"
    using sum_list_pick [OF assms(1) va(1), of "\<lambda>v. if P v then q else 0"] va(2) by simp
  have nb: "(\<Sum>(p, v)\<leftarrow>acc. if p = buy_order m then (if \<not> P v then q else 0) else 0) = 0"
    using sum_list_pick [OF assms(1) vb(1), of "\<lambda>v. if \<not> P v then q else 0"] vb(2) by simp
  have na: "(\<Sum>(p, v)\<leftarrow>acc. if p = sell_order m then (if \<not> P v then q else 0) else 0) = q"
    using sum_list_pick [OF assms(1) va(1), of "\<lambda>v. if \<not> P v then q else 0"] va(2) by simp
  have "(\<Sum>(p, v)\<leftarrow>acc. if P v then traded (m # ms) p else 0) =
      (\<Sum>(p, v)\<leftarrow>acc. (if p = buy_order m then (if P v then q else 0) else 0) +
         (if p = sell_order m then (if P v then q else 0) else 0) +
         (if P v then traded ms p else 0))"
    by (intro arg_cong [where f = sum_list] map_cong refl) (auto simp add: tr)
  also have "\<dots> = (\<Sum>(p, v)\<leftarrow>acc. if p = buy_order m then (if P v then q else 0) else 0) +
      (\<Sum>(p, v)\<leftarrow>acc. if p = sell_order m then (if P v then q else 0) else 0) +
      (\<Sum>(p, v)\<leftarrow>acc. if P v then traded ms p else 0)"
    by (induction acc) auto
  also have "\<dots> = q + 0 + (\<Sum>(p, v)\<leftarrow>acc. if P v then traded ms p else 0)"
    by (simp only: pb pa)
  finally have 1: "(\<Sum>(p, v)\<leftarrow>acc. if P v then traded (m # ms) p else 0) =
      (\<Sum>m\<leftarrow>m # ms. sint (quantity m))"
    using ih(1) by (simp add: q_def)
  have "(\<Sum>(p, v)\<leftarrow>acc. if \<not> P v then traded (m # ms) p else 0) =
      (\<Sum>(p, v)\<leftarrow>acc. (if p = buy_order m then (if \<not> P v then q else 0) else 0) +
         (if p = sell_order m then (if \<not> P v then q else 0) else 0) +
         (if \<not> P v then traded ms p else 0))"
    by (intro arg_cong [where f = sum_list] map_cong refl) (auto simp add: tr)
  also have "\<dots> = (\<Sum>(p, v)\<leftarrow>acc. if p = buy_order m then (if \<not> P v then q else 0) else 0) +
      (\<Sum>(p, v)\<leftarrow>acc. if p = sell_order m then (if \<not> P v then q else 0) else 0) +
      (\<Sum>(p, v)\<leftarrow>acc. if \<not> P v then traded ms p else 0)"
    by (induction acc) auto
  also have "\<dots> = 0 + q + (\<Sum>(p, v)\<leftarrow>acc. if \<not> P v then traded ms p else 0)"
    by (simp only: nb na)
  finally have 2: "(\<Sum>(p, v)\<leftarrow>acc. if \<not> P v then traded (m # ms) p else 0) =
      (\<Sum>m\<leftarrow>m # ms. sint (quantity m))"
    using ih(2) by (simp add: q_def)
  show ?case using 1 2 by simp
qed


lemma ledger_ok_start: "ledger_ok start"
  by (simp add: ledger_ok_def start_def engine_ok_New)
    (simp add: NewMatchingEngine_def nonneg_def)

section \<open>Conservation\<close>

text \<open>
  C8. The orders of the data model have a positive amount; the statement asks less of them,
  that no posted order has a negative amount. Then after every sequence of posted orders,
  sweeps and queries the quantities traded by the orders of the buy side add up to the same
  total as those traded by the orders of the sell side, and for every accepted order the
  quantity it has traded plus the amount it has resting in a book is the amount it was
  submitted with.
\<close>

theorem conservation:
  assumes "\<forall>v. PostOrders (Some v) \<in> set rs \<longrightarrow> 0 \<le>s Amount v"
  shows "\<exists>ss. run start rs = Some (Inr ss) \<and>
           traded_buy_side ss = traded_sell_side ss \<and>
           (\<forall>(p, v) \<in> set (accepted ss).
               traded (printed ss) p + residual (core ss) p = sint (Amount v))"
proof -
  have "\<exists>ss. run start rs = Some (Inr ss) \<and> ledger_ok ss"
  proof (rule run_rule)
    show "ledger_ok start" by (rule ledger_ok_start)
  next
    fix ss :: server and r :: request
    assume "ledger_ok ss" "r \<in> set rs"
    then show "\<exists>ss'. serve ss r = Some (Inr ss') \<and> ledger_ok ss'"
      using assms by (intro serve_ledger_ok) auto
  qed
  then obtain ss where ss: "run start rs = Some (Inr ss)" and ok: "ledger_ok ss" by blast
  have "traded_buy_side ss = (\<Sum>m\<leftarrow>printed ss. sint (quantity m)) \<and>
        traded_sell_side ss = (\<Sum>m\<leftarrow>printed ss. sint (quantity m))"
    unfolding traded_buy_side_def traded_sell_side_def
    using ok by (intro side_total [where P = "\<lambda>v. Type v = ''BUY''"]) (auto simp add: ledger_ok_def)
  moreover have "\<forall>(p, v) \<in> set (accepted ss). traded (printed ss) p + residual (core ss) p = sint (Amount v)"
    using ok by (auto simp add: ledger_ok_def)
  ultimately show ?thesis using ss by auto
qed

theorem conservation_witness:
  "0 \<le>s Amount (order_of 1 ''BUY'' 105 4) \<and> 0 \<le>s Amount (order_of 2 ''BUY'' 100 2) \<and>
   0 \<le>s Amount (order_of 3 ''SELL'' 99 5) \<and>
   (\<exists>ss. run start [PostOrders (Some (order_of 1 ''BUY'' 105 4)),
                     PostOrders (Some (order_of 2 ''BUY'' 100 2)),
                     PostOrders (Some (order_of 3 ''SELL'' 99 5)), MatcherTick] = Some (Inr ss) \<and>
         traded_buy_side ss = traded_sell_side ss \<and> traded_buy_side ss = 5 \<and>
         printed ss = [\<lparr>buy_order = 0, sell_order = 2, buy_price = 105, sell_price = 99, quantity = 4\<rparr>,
                       \<lparr>buy_order = 1, sell_order = 2, buy_price = 100, sell_price = 99, quantity = 1\<rparr>] \<and>
         traded (printed ss) 1 = 1 \<and> residual (core ss) 1 = 1 \<and>
         traded (printed ss) 2 = 5 \<and> residual (core ss) 2 = 0)"
proof -
  let ?rs = "[PostOrders (Some (order_of 1 ''BUY'' 105 4)),
              PostOrders (Some (order_of 2 ''BUY'' 100 2)),
              PostOrders (Some (order_of 3 ''SELL'' 99 5)), MatcherTick]"
  have h: "\<forall>v. PostOrders (Some v) \<in> set ?rs \<longrightarrow> 0 \<le>s Amount v"
    by (auto simp add: order_of_def word_sle_eq)
  have p: "0 \<le>s Amount (order_of 1 ''BUY'' 105 4)" "0 \<le>s Amount (order_of 2 ''BUY'' 100 2)"
    "0 \<le>s Amount (order_of 3 ''SELL'' 99 5)"
    unfolding order_of_def by (simp_all add: word_sle_eq)
  have e: "(case run start ?rs of
             Some (Inr ss) \<Rightarrow> traded_buy_side ss = 5 \<and>
               printed ss = [\<lparr>buy_order = 0, sell_order = 2, buy_price = 105, sell_price = 99, quantity = 4\<rparr>,
                             \<lparr>buy_order = 1, sell_order = 2, buy_price = 100, sell_price = 99, quantity = 1\<rparr>] \<and>
               traded (printed ss) 1 = 1 \<and> residual (core ss) 1 = 1 \<and>
               traded (printed ss) 2 = 5 \<and> residual (core ss) 2 = 0
           | _ \<Rightarrow> False)"
    by code_simp
  show ?thesis using conservation [OF h] e p by auto
qed

end
